theory Spec2Isabelle
  imports Complex_Main "HOL-Library.Monad_Syntax"
begin

section \<open>GraphSAGEModel: the stack of SAGEConv layers\<close>

text \<open>
  \<^verbatim>\<open>GraphSAGEModel.__init__\<close> (both recommendation notebooks) fills a module list with
  \<^verbatim>\<open>SAGEConv(in, out, aggregator_type, feat_drop=dropout, activation=...)\<close> objects.
  The layer class itself comes from a library; a layer is recorded here by its
  constructor arguments. Dimensions and \<^verbatim>\<open>n_layers\<close> are Python integers.
\<close>

datatype ('act, 'drop) SAGEConv =
  SAGEConv (conv_in: int) (conv_out: int) (conv_agg: string) (feat_drop: 'drop)
    (activation: "'act option")

text \<open>The \<^verbatim>\<open>for i in range(n_layers - 2)\<close> loop that appends the hidden layers.\<close>

fun hidden_layers :: "nat \<Rightarrow> ('act, 'drop) SAGEConv \<Rightarrow> ('act, 'drop) SAGEConv list
    \<Rightarrow> ('act, 'drop) SAGEConv list" where
  "hidden_layers 0 l layers = layers"
| "hidden_layers (Suc i) l layers = hidden_layers i l (layers @ [l])"

definition GraphSAGEModel_layers ::
  "int \<Rightarrow> int \<Rightarrow> int \<Rightarrow> int \<Rightarrow> 'act \<Rightarrow> 'drop \<Rightarrow> string \<Rightarrow> ('act, 'drop) SAGEConv list" where
  "GraphSAGEModel_layers in_feats n_hidden out_dim n_layers act dropout aggregator_type =
     (if n_layers = 1 then
        [] @ [SAGEConv in_feats out_dim aggregator_type dropout None]
      else if n_layers > 1 then
        hidden_layers (nat (n_layers - 2))
          (SAGEConv n_hidden n_hidden aggregator_type dropout (Some act))
          ([] @ [SAGEConv in_feats n_hidden aggregator_type dropout (Some act)])
        @ [SAGEConv n_hidden out_dim aggregator_type dropout None]
      else [])"

text \<open>
  \<^verbatim>\<open>forward\<close> of the FISM notebook:
  \<^verbatim>\<open>
  def forward(self, g, features):
      h = features
      for layer in self.layers:
          if use_edge_similarity:
              h = layer(g, h, g.edata['similarity'])
          else:
              h = layer(g, h)
      h = self.norm(h)
      return h
  \<close>
  Calling a layer is the library's business: \<open>call_w layer g h w\<close> stands for
  \<^verbatim>\<open>layer(g, h, w)\<close>, \<open>call layer g h\<close> for \<^verbatim>\<open>layer(g, h)\<close>, \<open>edata_similarity g\<close> for
  \<^verbatim>\<open>g.edata['similarity']\<close> and \<open>norm\<close> for \<^verbatim>\<open>self.norm\<close>. The global
  \<^verbatim>\<open>use_edge_similarity\<close> is an argument.
\<close>

fun fism_layers_loop :: "bool \<Rightarrow> ('l \<Rightarrow> 'g \<Rightarrow> 'h \<Rightarrow> 'w \<Rightarrow> 'h) \<Rightarrow> ('l \<Rightarrow> 'g \<Rightarrow> 'h \<Rightarrow> 'h) \<Rightarrow> ('g \<Rightarrow> 'w)
    \<Rightarrow> 'l list \<Rightarrow> 'g \<Rightarrow> 'h \<Rightarrow> 'h" where
  "fism_layers_loop use_edge_similarity call_w call edata_similarity [] g h = h"
| "fism_layers_loop use_edge_similarity call_w call edata_similarity (layer # layers) g h =
     fism_layers_loop use_edge_similarity call_w call edata_similarity layers g
       (if use_edge_similarity then call_w layer g h (edata_similarity g) else call layer g h)"

definition GraphSAGEModel_forward :: "bool \<Rightarrow> ('l \<Rightarrow> 'g \<Rightarrow> 'h \<Rightarrow> 'w \<Rightarrow> 'h) \<Rightarrow> ('l \<Rightarrow> 'g \<Rightarrow> 'h \<Rightarrow> 'h)
    \<Rightarrow> ('g \<Rightarrow> 'w) \<Rightarrow> ('h \<Rightarrow> 'h) \<Rightarrow> 'l list \<Rightarrow> 'g \<Rightarrow> 'h \<Rightarrow> 'h" where
  "GraphSAGEModel_forward use_edge_similarity call_w call edata_similarity layer_norm layers g features =
     layer_norm (fism_layers_loop use_edge_similarity call_w call edata_similarity layers g features)"

text \<open>
  \<^verbatim>\<open>forward\<close> of the retail notebook, which always passes the edge attribute and ends
  with \<^verbatim>\<open>self.proj\<close>:
  \<^verbatim>\<open>
  def forward(self, g, features):
      h = features
      for layer in self.layers:
          h = layer(g, h, g.edata['similarity'])
      h = self.proj(h)
      return h
  \<close>
\<close>

fun retail_layers_loop :: "('l \<Rightarrow> 'g \<Rightarrow> 'h \<Rightarrow> 'w \<Rightarrow> 'h) \<Rightarrow> ('g \<Rightarrow> 'w) \<Rightarrow> 'l list \<Rightarrow> 'g \<Rightarrow> 'h \<Rightarrow> 'h" where
  "retail_layers_loop call_w edata_similarity [] g h = h"
| "retail_layers_loop call_w edata_similarity (layer # layers) g h =
     retail_layers_loop call_w edata_similarity layers g (call_w layer g h (edata_similarity g))"

definition GraphSAGEModel_forward_retail :: "('l \<Rightarrow> 'g \<Rightarrow> 'h \<Rightarrow> 'w \<Rightarrow> 'h) \<Rightarrow> ('g \<Rightarrow> 'w) \<Rightarrow> ('h \<Rightarrow> 'h)
    \<Rightarrow> 'l list \<Rightarrow> 'g \<Rightarrow> 'h \<Rightarrow> 'h" where
  "GraphSAGEModel_forward_retail call_w edata_similarity proj layers g features =
     proj (retail_layers_loop call_w edata_similarity layers g features)"

section \<open>Numbers, arrays, indexing and means\<close>

text \<open>
  Scores and embeddings are floating-point numbers (32-bit tensors, 64-bit arrays). Their
  arithmetic is not fixed here: everything that computes with them is written over an
  arbitrary type \<open>'a\<close> that has \<open>+\<close>, \<open>-\<close>, \<open>*\<close>, \<open>/\<close>, \<open>0\<close>, \<open>1\<close> and \<open>\<le>\<close>, and about these
  operations nothing at all is assumed (the type classes \<open>plus\<close>, \<open>minus\<close>, \<open>times\<close>,
  \<open>inverse\<close>, \<open>zero\<close>, \<open>one\<close> and \<open>ord\<close> carry no axioms). A theorem about such a definition
  holds whatever the operations do: with rounding after every operation, with
  infinities, and with a NaN that is not even \<open>\<le>\<close> itself. \<open>x \<ge> y\<close> is \<open>y \<le> x\<close>, and
  \<open>max x y\<close> is \<open>y\<close> when \<open>x \<le> y\<close> and \<open>x\<close> otherwise.

  A two-dimensional array is a list of rows. A result of type \<open>option\<close> is \<open>None\<close> where
  the Python raises an exception (or, for \<open>np_mean\<close>, yields NaN).
\<close>

type_synonym 'a matrix = "'a list list"

text \<open>
  For examples, one arithmetic with a NaN: the values are the real numbers and NaN. An
  operation on numbers is the exact one, an operation with a NaN operand gives NaN, and
  a comparison with a NaN operand is false, as in IEEE 754 arithmetic. A quotient by
  zero is NaN here; IEEE 754 agrees when the dividend is zero too and gives an infinity
  otherwise, which no example below needs. The examples use numbers on which
  floating-point operations are exact.
\<close>

datatype fval = NaN | Num real

instantiation fval :: "{plus, minus, times, inverse, zero, one, ord}"
begin

definition zero_fval :: fval where
  "zero_fval = Num 0"

definition one_fval :: fval where
  "one_fval = Num 1"

definition plus_fval :: "fval \<Rightarrow> fval \<Rightarrow> fval" where
  "plus_fval x y = (case (x, y) of (Num a, Num b) \<Rightarrow> Num (a + b) | _ \<Rightarrow> NaN)"

definition minus_fval :: "fval \<Rightarrow> fval \<Rightarrow> fval" where
  "minus_fval x y = (case (x, y) of (Num a, Num b) \<Rightarrow> Num (a - b) | _ \<Rightarrow> NaN)"

definition times_fval :: "fval \<Rightarrow> fval \<Rightarrow> fval" where
  "times_fval x y = (case (x, y) of (Num a, Num b) \<Rightarrow> Num (a * b) | _ \<Rightarrow> NaN)"

definition divide_fval :: "fval \<Rightarrow> fval \<Rightarrow> fval" where
  "divide_fval x y =
     (case (x, y) of (Num a, Num b) \<Rightarrow> if b = 0 then NaN else Num (a / b) | _ \<Rightarrow> NaN)"

definition inverse_fval :: "fval \<Rightarrow> fval" where
  "inverse_fval x = (case x of Num a \<Rightarrow> if a = 0 then NaN else Num (1 / a) | NaN \<Rightarrow> NaN)"

definition less_eq_fval :: "fval \<Rightarrow> fval \<Rightarrow> bool" where
  "less_eq_fval x y = (case (x, y) of (Num a, Num b) \<Rightarrow> a \<le> b | _ \<Rightarrow> False)"

definition less_fval :: "fval \<Rightarrow> fval \<Rightarrow> bool" where
  "less_fval x y = (case (x, y) of (Num a, Num b) \<Rightarrow> a < b | _ \<Rightarrow> False)"

instance ..

end

text \<open>
  \<^verbatim>\<open>t.float()\<close> of a count and \<^verbatim>\<open>x ** a\<close> for a natural exponent in that arithmetic;
  \<^verbatim>\<open>x ** 0\<close> is one for every \<open>x\<close>, NaN included.
\<close>

definition fval_of_nat :: "nat \<Rightarrow> fval" where
  "fval_of_nat n = Num (real n)"

definition fval_pow :: "fval \<Rightarrow> nat \<Rightarrow> fval" where
  "fval_pow x a = (if a = 0 then Num 1 else case x of Num v \<Rightarrow> Num (v ^ a) | NaN \<Rightarrow> NaN)"

text \<open>
  Indexing an axis of length \<open>n\<close> with a Python integer: a negative index counts from the
  end, an index outside \<open>[-n, n)\<close> raises IndexError.
\<close>

definition py_index :: "nat \<Rightarrow> int \<Rightarrow> nat option" where
  "py_index n i =
     (if 0 \<le> i \<and> i < int n then Some (nat i)
      else if - int n \<le> i \<and> i < 0 then Some (nat (i + int n))
      else None)"

definition wrap_index :: "nat \<Rightarrow> int \<Rightarrow> nat" where
  "wrap_index n i = nat (if i < 0 then i + int n else i)"

definition has_shape :: "nat \<Rightarrow> nat \<Rightarrow> 'a list list \<Rightarrow> bool" where
  "has_shape r c m = (length m = r \<and> list_all (\<lambda>row. length row = c) m)"

text \<open>
  The inner product \<^verbatim>\<open>(x * y).sum()\<close>: the products are added up from the left,
  starting from zero. (In which order a library adds is its own business; the order
  matters only where addition rounds.)
\<close>

definition dot :: "'a::{plus,times,zero} list \<Rightarrow> 'a list \<Rightarrow> 'a" where
  "dot x y = foldl (+) 0 (map2 (*) x y)"

text \<open>
  \<^verbatim>\<open>np.mean\<close> of a Boolean array: the fraction of true entries (numpy returns the 64-bit
  float nearest to it), NaN on an empty array.
\<close>

definition np_mean :: "bool list \<Rightarrow> real option" where
  "np_mean bs = (if bs = [] then None
                 else Some (real (length (filter (\<lambda>b. b) bs)) / real (length bs)))"

section \<open>knnEvaluate (retail notebook)\<close>

text \<open>\<^verbatim>\<open>dot_score(data) = np.dot(data, data.transpose())\<close>\<close>

definition dot_score :: "'a::{plus,times,zero} matrix \<Rightarrow> 'a matrix" where
  "dot_score data = map (\<lambda>r. map (\<lambda>c. dot r c) data) data"

text \<open>\<^verbatim>\<open>np.diag(np.ones(n))\<close>\<close>

definition np_eye :: "nat \<Rightarrow> 'a::{zero,one} matrix" where
  "np_eye n = map (\<lambda>i. map (\<lambda>j. if i = j then 1 else 0) [0..<n]) [0..<n]"

definition mat_sub :: "'a::minus matrix \<Rightarrow> 'a matrix \<Rightarrow> 'a matrix" where
  "mat_sub a b = map2 (map2 (-)) a b"

text \<open>
  \<^verbatim>\<open>
  def knnEvaluate(data, query_eval, item_eval, score_fn):
      # We need to remove the score of the query item with itself
      scores = score_fn(data) - np.diag(np.ones(data.shape[0]))
      truth_scores = np.expand_dims(scores[query_eval,item_eval], 1)
      query_scores = scores[query_eval]
      return np.mean(np.sum(query_scores >= truth_scores, 1) < 3)
  \<close>
  The score function is an argument. Both score functions of the notebook return a
  square matrix with one row per row of \<open>data\<close>; the model takes any other shape, and index
  arrays of different lengths, as an error (numpy would try to broadcast them).
  \<open>knn_counts\<close> is the array \<^verbatim>\<open>np.sum(query_scores >= truth_scores, 1)\<close>, one count per
  query/truth pair, to which \<open>knnEvaluate\<close> applies \<^verbatim>\<open>np.mean(... < 3)\<close>.
\<close>

definition knn_counts :: "'a::{minus,zero,one,ord} matrix \<Rightarrow> int list \<Rightarrow> int list
    \<Rightarrow> ('a matrix \<Rightarrow> 'a matrix) \<Rightarrow> nat list option" where
  "knn_counts data query_eval item_eval score_fn =
     (let n = length data; s = score_fn data in
      if \<not> has_shape n n s then None
      else
        let scores = mat_sub s (np_eye n) in
        if length query_eval \<noteq> length item_eval then None
        else
          case those (map2 (\<lambda>q t. case (py_index n q, py_index n t) of
                                     (Some a, Some b) \<Rightarrow> Some (scores ! a ! b)
                                   | _ \<Rightarrow> None) query_eval item_eval) of
            None \<Rightarrow> None
          | Some truth_scores \<Rightarrow>
              (case those (map (\<lambda>q. map_option (\<lambda>a. scores ! a) (py_index n q)) query_eval) of
                 None \<Rightarrow> None
               | Some query_scores \<Rightarrow>
                   Some (map2 (\<lambda>row t. length (filter (\<lambda>s. s \<ge> t) row))
                           query_scores truth_scores)))"

definition knnEvaluate :: "'a::{minus,zero,one,ord} matrix \<Rightarrow> int list \<Rightarrow> int list
    \<Rightarrow> ('a matrix \<Rightarrow> 'a matrix) \<Rightarrow> real option" where
  "knnEvaluate data query_eval item_eval score_fn =
     (case knn_counts data query_eval item_eval score_fn of
        None \<Rightarrow> None
      | Some counts \<Rightarrow> np_mean (map (\<lambda>c. c < 3) counts))"

section \<open>FISMrating (FISM notebook)\<close>

text \<open>
  Index tensors hold Python integers; \<open>tbl[idx]\<close> with an index tensor is \<open>gather\<close>.
  Shapes that do not fit raise in PyTorch and give \<open>None\<close> here. PyTorch also accepts a
  dimension of size one where a larger one is expected (broadcasting); that is not
  modelled, the arguments of the model are tensors of the sizes the notebook passes.
\<close>

definition in_range :: "nat \<Rightarrow> int \<Rightarrow> bool" where
  "in_range n i = (- int n \<le> i \<and> i < int n)"

definition gather :: "'a list \<Rightarrow> int list \<Rightarrow> 'a list option" where
  "gather tbl idx = those (map (\<lambda>i. map_option (\<lambda>a. tbl ! a) (py_index (length tbl) i)) idx)"

text \<open>\<^verbatim>\<open>torch.arange(m).repeat_interleave(repeats)\<close>\<close>

definition arange_repeat_interleave :: "nat \<Rightarrow> nat list \<Rightarrow> nat list option" where
  "arange_repeat_interleave m repeats =
     (if length repeats = m then Some (concat (map2 replicate repeats [0..<m])) else None)"

text \<open>
  \<^verbatim>\<open>acc.scatter_add(0, idx[:, None].expand_as(src), src)\<close>: row \<open>k\<close> of \<open>src\<close> is added to
  row \<open>idx[k]\<close> of \<open>acc\<close>, for \<open>k\<close> from the first row to the last.
\<close>

fun scatter_add_rows :: "'a::plus matrix \<Rightarrow> nat list \<Rightarrow> 'a matrix \<Rightarrow> 'a matrix option" where
  "scatter_add_rows acc [] [] = Some acc"
| "scatter_add_rows acc (i # idx) (row # src) =
     (if i < length acc then scatter_add_rows (acc[i := map2 (+) (acc ! i) row]) idx src
      else None)"
| "scatter_add_rows acc _ _ = None"

text \<open>\<^verbatim>\<open>t.reshape((-1, k))\<close> of a tensor whose elements, row by row, are \<open>flat\<close>.\<close>

definition reshape_rows :: "nat \<Rightarrow> 'a list \<Rightarrow> 'a list list option" where
  "reshape_rows k flat =
     (if k = 0 \<or> length flat mod k \<noteq> 0 then None
      else Some (map (\<lambda>i. take k (drop (i * k) flat)) [0..<length flat div k]))"

text \<open>
  \<^verbatim>\<open>
  class FISMrating(nn.Module):
      def __init__(self, P, Q, num_users, num_movies, alpha=0):
          self.P = P
          self.Q = Q
          self.b_u = nn.Parameter(torch.zeros(num_users))
          self.b_i = nn.Parameter(torch.zeros(num_movies))
          self.alpha = alpha
  \<close>
  \<open>P\<close> and \<open>Q\<close> are the functions \<^verbatim>\<open>lambda I: gconv(g, encode(g.ndata))[I]\<close>: a table of
  item embeddings, one row per item, indexed by \<open>I\<close>. The exponent \<open>alpha\<close> is a Python
  number; its type \<open>'e\<close> is left open like that of the scores.
\<close>

record ('a, 'e) FISMrating =
  P :: "'a matrix"
  Q :: "'a matrix"
  b_u :: "'a list"
  b_i :: "'a list"
  alpha :: 'e

text \<open>
  \<^verbatim>\<open>
  def forward(self, I, U, I_neg, I_U, N_U, test):
      batch_size = I.shape[0]
      U_idx = torch.arange(U.shape[0], device=device).repeat_interleave(N_U)
      q = self.Q(I)
      p = self.P(I_U)
      if not test:
          p_self = self.P(I)
      p_sum = torch.zeros_like(q)
      p_sum = p_sum.scatter_add(0, U_idx[:, None].expand_as(p), p)
      if test:
          p_ctx = p_sum
          pq = (p_ctx * q).sum(1) / (N_U.float() ** self.alpha)
      else:
          p_ctx = p_sum - p_self
          pq = (p_ctx * q).sum(1) / ((N_U.float() - 1).clamp(min=1) ** self.alpha)
      r = self.b_u[U] + self.b_i[I] + pq
      if I_neg is not None:
          n_negs = I_neg.shape[1]
          I_neg_flat = I_neg.view(-1)
          q_neg = self.Q(I_neg_flat)
          q_neg = q_neg.view(batch_size, n_negs, -1)
          if test:
              pq_neg = (p_ctx.unsqueeze(1) * q_neg).sum(2) / (N_U.float().unsqueeze(1) ** self.alpha)
          else:
              pq_neg = (p_ctx.unsqueeze(1) * q_neg).sum(2) / ((N_U.float() - 1).clamp(min=1).unsqueeze(1) ** self.alpha)
          r_neg = self.b_u[U].unsqueeze(1) + self.b_i[I_neg] + pq_neg
          return r, r_neg
      else:
          return r
  \<close>
  The elementwise tensor expressions are written entry by entry. The conversion
  \<^verbatim>\<open>.float()\<close> of a count and the power \<^verbatim>\<open>**\<close> belong to the library and are the arguments
  \<open>to_float\<close> and \<open>pow\<close>; \<^verbatim>\<open>x.clamp(min=1)\<close> is \<open>max x 1\<close>. \<open>I_neg\<close> is a list of rows; rows of
  different lengths make no tensor and give \<open>None\<close>. \<^verbatim>\<open>q_neg.view(batch_size, n_negs, -1)\<close>
  raises when \<open>batch_size * n_negs\<close> is zero, because the last dimension cannot be
  inferred then.
\<close>

definition FISMrating_forward ::
  "(nat \<Rightarrow> 'a) \<Rightarrow> ('a \<Rightarrow> 'e \<Rightarrow> 'a) \<Rightarrow> ('a::{plus,minus,times,inverse,zero,one,ord}, 'e) FISMrating
    \<Rightarrow> int list \<Rightarrow> int list \<Rightarrow> int list list option \<Rightarrow> int list \<Rightarrow> nat list \<Rightarrow> bool
    \<Rightarrow> ('a list \<times> 'a matrix option) option" where
  "FISMrating_forward to_float pow m I U I_neg I_U N_U test =
     do {
       let batch_size = length I;
       U_idx \<leftarrow> arange_repeat_interleave (length U) N_U;
       q \<leftarrow> gather (Q m) I;
       p \<leftarrow> gather (P m) I_U;
       p_self \<leftarrow> (if test then Some [] else gather (P m) I);
       p_sum \<leftarrow> scatter_add_rows (map (map (\<lambda>_. 0)) q) U_idx p;
       let p_ctx = (if test then p_sum else map2 (map2 (-)) p_sum p_self);
       let nrm = (if test then map (\<lambda>n. pow (to_float n) (alpha m)) N_U
                  else map (\<lambda>n. pow (max (to_float n - 1) 1) (alpha m)) N_U);
       bu \<leftarrow> gather (b_u m) U;
       bi \<leftarrow> gather (b_i m) I;
       if length U \<noteq> batch_size then None
       else do {
         let r = map (\<lambda>b. bu ! b + bi ! b + dot (p_ctx ! b) (q ! b) / nrm ! b) [0..<batch_size];
         case I_neg of
           None \<Rightarrow> Some (r, None)
         | Some negs \<Rightarrow>
             if length negs \<noteq> batch_size then None
             else if negs = [] then None
             else do {
               let n_negs = length (negs ! 0);
               if \<not> has_shape batch_size n_negs negs \<or> n_negs = 0 then None
               else do {
                 q_neg \<leftarrow> those (map (gather (Q m)) negs);
                 bi_neg \<leftarrow> those (map (gather (b_i m)) negs);
                 Some (r, Some (map (\<lambda>b. map (\<lambda>j. bu ! b + bi_neg ! b ! j
                                                + dot (p_ctx ! b) (q_neg ! b ! j) / nrm ! b)
                                          [0..<n_negs]) [0..<batch_size]))
               }
             }
       }
     }"

text \<open>
  For the statement of what \<open>forward\<close> computes: the interacted items of the \<open>b\<close>-th user
  of the batch are the \<open>b\<close>-th segment of \<open>I_U\<close> (the segments have the lengths \<open>N_U\<close>), and
  \<open>emb_sum\<close> adds up the embeddings of a list of items, from the first to the last,
  starting from the zero vector.
\<close>

definition user_items :: "nat list \<Rightarrow> 'b list \<Rightarrow> nat \<Rightarrow> 'b list" where
  "user_items N_U I_U b = take (N_U ! b) (drop (sum_list (take b N_U)) I_U)"

definition emb_sum :: "'a::{plus,zero} matrix \<Rightarrow> nat \<Rightarrow> int list \<Rightarrow> 'a list" where
  "emb_sum T d items =
     foldl (map2 (+)) (replicate d 0) (map (\<lambda>i. T ! wrap_index (length T) i) items)"

section \<open>FISM.est_rating and RecEval (FISM notebook)\<close>

text \<open>
  \<^verbatim>\<open>
  def est_rating(self, I, U, I_neg, I_U, N_U):
      r, r_neg = self.fism_rating(I, U, I_neg, I_U, N_U, True)
      neg_sample_size = int(len(r_neg) / len(r))
      return torch.unsqueeze(r, 1), r_neg.reshape((-1, neg_sample_size))
  \<close>
  Without negative items \<open>forward\<close> returns a single tensor and the unpacking fails.
  \<^verbatim>\<open>len\<close> of a tensor is its number of rows; \<^verbatim>\<open>int(a / b)\<close> of two sizes is \<open>a div b\<close>, and
  raises ZeroDivisionError for \<open>b = 0\<close>.
\<close>

definition est_rating ::
  "(nat \<Rightarrow> 'a) \<Rightarrow> ('a \<Rightarrow> 'e \<Rightarrow> 'a) \<Rightarrow> ('a::{plus,minus,times,inverse,zero,one,ord}, 'e) FISMrating
    \<Rightarrow> int list \<Rightarrow> int list \<Rightarrow> int list list option \<Rightarrow> int list \<Rightarrow> nat list
    \<Rightarrow> ('a matrix \<times> 'a matrix) option" where
  "est_rating to_float pow m I U I_neg I_U N_U =
     (case FISMrating_forward to_float pow m I U I_neg I_U N_U True of
        Some (r, Some r_neg) \<Rightarrow>
          if length r = 0 then None
          else do {
            let neg_sample_size = length r_neg div length r;
            r_neg' \<leftarrow> reshape_rows neg_sample_size (concat r_neg);
            Some (map (\<lambda>x. [x]) r, r_neg')
          }
      | _ \<Rightarrow> None)"

text \<open>
  \<^verbatim>\<open>
  def RecEval(model, user_item_spm, k, users_eval, items_eval, neg_eval):
      model.eval()
      with torch.no_grad():
          neg_items_eval = neg_eval[users_eval]
          neighbors = user_item_spm.tocsr()[users_eval]
          I_U = torch.LongTensor(neighbors.indices)
          N_U = torch.LongTensor(neighbors.indptr[1:] - neighbors.indptr[:-1])
          r, neg_r = model.est_rating(torch.LongTensor(items_eval).to(device),
                                      torch.LongTensor(users_eval).to(device),
                                      torch.LongTensor(neg_items_eval).to(device),
                                      I_U.to(device),
                                      N_U.to(device))
          neg_sample_size = int(len(neg_r) / len(r))
          neg_r = neg_r.reshape((-1, neg_sample_size))
          hits = (torch.sum(neg_r >= r, 1) <= k).cpu().numpy()
          return np.mean(hits)
  \<close>
  The user-item matrix in CSR form is the list of its rows, each row the list of the
  column indices stored in it; \<open>neg_eval\<close> has one row of negative items per user.
\<close>

definition RecEval ::
  "(nat \<Rightarrow> 'a) \<Rightarrow> ('a \<Rightarrow> 'e \<Rightarrow> 'a) \<Rightarrow> ('a::{plus,minus,times,inverse,zero,one,ord}, 'e) FISMrating
    \<Rightarrow> int list list \<Rightarrow> int \<Rightarrow> int list \<Rightarrow> int list \<Rightarrow> int list list \<Rightarrow> real option" where
  "RecEval to_float pow m user_item_spm k users_eval items_eval neg_eval =
     do {
       neg_items_eval \<leftarrow> gather neg_eval users_eval;
       neighbors \<leftarrow> gather user_item_spm users_eval;
       let I_U = concat neighbors;
       let N_U = map length neighbors;
       (r, neg_r) \<leftarrow> est_rating to_float pow m items_eval users_eval (Some neg_items_eval) I_U N_U;
       if length r = 0 then None
       else do {
         let neg_sample_size = length neg_r div length r;
         neg_r' \<leftarrow> reshape_rows neg_sample_size (concat neg_r);
         if length neg_r' \<noteq> length r then None
         else np_mean (map2 (\<lambda>row rb. int (length (filter (\<lambda>x. x \<ge> rb ! 0) row)) \<le> k)
                         neg_r' r)
       }
     }"

section \<open>The ranking loss\<close>










section \<open>load_topk_pred\<close>

text \<open>
  The file is the list of its lines, a line a string of characters with code points
  below 256 (the type \<open>char\<close>). \<^verbatim>\<open>line.split()\<close> cuts a line at runs of white space. Of
  these characters Python takes as white space: tab, line feed, vertical tab, form
  feed, carriage return (9 to 13), the separators 28 to 31, the blank (32), next line
  (133) and the no-break space (160).
\<close>

definition is_space :: "char \<Rightarrow> bool" where
  "is_space c = (let n = (of_char c :: nat) in
     (9 \<le> n \<and> n \<le> 13) \<or> (28 \<le> n \<and> n \<le> 32) \<or> n = 133 \<or> n = 160)"

fun split_from :: "string \<Rightarrow> string \<Rightarrow> string list" where
  "split_from cur [] = (if cur = [] then [] else [cur])"
| "split_from cur (c # cs) =
     (if is_space c then (if cur = [] then split_from [] cs else cur # split_from [] cs)
      else split_from (cur @ [c]) cs)"

definition split_ws :: "string \<Rightarrow> string list" where
  "split_ws s = split_from [] s"

text \<open>\<^verbatim>\<open>' '.join(ctx)\<close> and \<^verbatim>\<open>s.startswith(pre)\<close>\<close>

fun join_sp :: "string list \<Rightarrow> string" where
  "join_sp [] = []"
| "join_sp [t] = t"
| "join_sp (t # ts) = t @ CHR '' '' # join_sp ts"

definition startswith :: "string \<Rightarrow> string \<Rightarrow> bool" where
  "startswith s pre = (take (length pre) s = pre)"

text \<open>
  \<^verbatim>\<open>int(s)\<close> on a token without white space: an optional sign and at least one decimal
  digit; anything else raises ValueError. Leading zeros are accepted. (Among the
  characters below 256 the decimal digits are \<open>0\<close> to \<open>9\<close>; the notebook's kernel is Python
  3.5, which does not accept underscores between digits.)
\<close>

definition digit_val :: "char \<Rightarrow> nat option" where
  "digit_val c = (let n = (of_char c :: nat) in if 48 \<le> n \<and> n \<le> 57 then Some (n - 48) else None)"

fun digits_val :: "string \<Rightarrow> nat \<Rightarrow> nat option" where
  "digits_val [] acc = Some acc"
| "digits_val (c # cs) acc =
     (case digit_val c of None \<Rightarrow> None | Some d \<Rightarrow> digits_val cs (10 * acc + d))"

definition py_int :: "string \<Rightarrow> int option" where
  "py_int s =
     (case s of
        [] \<Rightarrow> None
      | c # cs \<Rightarrow>
          if c = CHR ''-'' then (if cs = [] then None else map_option (\<lambda>n. - int n) (digits_val cs 0))
          else if c = CHR ''+'' then (if cs = [] then None else map_option int (digits_val cs 0))
          else map_option int (digits_val s 0))"

text \<open>
  \<^verbatim>\<open>d[k] = v\<close> on a dictionary kept as the list of its items: a key that is present
  keeps its place and gets the new value, a new key goes to the end. (The order of the
  items plays no role in what is proved below.)
\<close>

fun dict_set :: "('k \<times> 'v) list \<Rightarrow> 'k \<Rightarrow> 'v \<Rightarrow> ('k \<times> 'v) list" where
  "dict_set [] k v = [(k, v)]"
| "dict_set ((k', v') # d) k v = (if k' = k then (k, v) # d else (k', v') # dict_set d k v)"

text \<open>
  \<^verbatim>\<open>
  def load_topk_pred(file_name, ctx_size, k):
      ctxs = []
      preds = []
      with open(file_name, 'r') as infile:
          for line in infile:
              strs = line.split()
              if strs[0].startswith('row'):
                  ctx = strs[2:]
                  assert len(ctx) == ctx_size
                  ctxs.append(ctx)
              elif strs[0].startswith('recommend'):
                  pred = list(map(lambda s: int(s), strs[1:]))
                  preds.append(pred)
      ctx_preds = {}
      for ctx, pred in zip(ctxs, preds):
          key = ' '.join(ctx)
          ctx_preds[key] = pred
      ctxs = []
      preds = []
      for ctx_str, pred in ctx_preds.items():
          ctx = list(map(lambda s: int(s), ctx_str.split()))
          ctxs.append(ctx)
          preds.append(pred)
      return ctxs, preds
  \<close>
  \<open>read_lines\<close> is the first loop; a blank line raises IndexError at \<^verbatim>\<open>strs[0]\<close>, a failed
  assertion and an unreadable number raise as well.
\<close>

fun read_lines :: "string list \<Rightarrow> int \<Rightarrow> string list list \<Rightarrow> int list list
    \<Rightarrow> (string list list \<times> int list list) option" where
  "read_lines [] ctx_size ctxs preds = Some (ctxs, preds)"
| "read_lines (line # rest) ctx_size ctxs preds =
     (let strs = split_ws line in
      case strs of
        [] \<Rightarrow> None
      | s0 # _ \<Rightarrow>
          if startswith s0 ''row'' then
            (let ctx = drop 2 strs in
             if int (length ctx) \<noteq> ctx_size then None
             else read_lines rest ctx_size (ctxs @ [ctx]) preds)
          else if startswith s0 ''recommend'' then
            (case those (map py_int (drop 1 strs)) of
               None \<Rightarrow> None
             | Some pred \<Rightarrow> read_lines rest ctx_size ctxs (preds @ [pred]))
          else read_lines rest ctx_size ctxs preds)"

definition build_ctx_preds :: "string list list \<Rightarrow> int list list \<Rightarrow> (string \<times> int list) list" where
  "build_ctx_preds ctxs preds =
     foldl (\<lambda>ctx_preds (ctx, pred). dict_set ctx_preds (join_sp ctx) pred) [] (zip ctxs preds)"

definition load_topk_pred :: "string list \<Rightarrow> int \<Rightarrow> int \<Rightarrow> (int list list \<times> int list list) option" where
  "load_topk_pred file_lines ctx_size k =
     do {
       (ctxs, preds) \<leftarrow> read_lines file_lines ctx_size [] [];
       let ctx_preds = build_ctx_preds ctxs preds;
       ctxs' \<leftarrow> those (map (\<lambda>(ctx_str, pred). those (map py_int (split_ws ctx_str))) ctx_preds);
       Some (ctxs', map snd ctx_preds)
     }"

text \<open>A token as \<open>split_ws\<close> produces it: not empty and free of white space.\<close>

definition good_token :: "string \<Rightarrow> bool" where
  "good_token t = (t \<noteq> [] \<and> list_all (\<lambda>c. \<not> is_space c) t)"

text \<open>
  For the statement of what \<open>load_topk_pred\<close> returns. A row line is a line whose first
  token starts with \<^verbatim>\<open>row\<close>, and its context is what follows its first two tokens; a
  recommend line is a line that is no row line and whose first token starts with
  \<^verbatim>\<open>recommend\<close>, and its numbers are what follows its first token. \<open>ints_of\<close> reads a list
  of tokens as integers.
\<close>

definition is_row_line :: "string \<Rightarrow> bool" where
  "is_row_line line = (case split_ws line of [] \<Rightarrow> False | s0 # _ \<Rightarrow> startswith s0 ''row'')"

definition is_rec_line :: "string \<Rightarrow> bool" where
  "is_rec_line line =
     (case split_ws line of [] \<Rightarrow> False
      | s0 # _ \<Rightarrow> \<not> startswith s0 ''row'' \<and> startswith s0 ''recommend'')"

definition row_contexts :: "string list \<Rightarrow> string list list" where
  "row_contexts file_lines = map (\<lambda>line. drop 2 (split_ws line)) (filter is_row_line file_lines)"

definition rec_numbers :: "string list \<Rightarrow> string list list" where
  "rec_numbers file_lines = map (\<lambda>line. drop 1 (split_ws line)) (filter is_rec_line file_lines)"

definition ints_of :: "string list \<Rightarrow> int list option" where
  "ints_of toks = those (map py_int toks)"

text \<open>
  A file that \<open>load_topk_pred\<close> can read: no line is blank, the context of every row line
  has \<open>ctx_size\<close> tokens, the numbers of every recommend line are readable, and so are the
  contexts of the row lines that have a partner, the \<open>j\<close>-th row line being paired with
  the \<open>j\<close>-th recommend line and the surplus of either kind left alone.
\<close>

definition readable_file :: "string list \<Rightarrow> int \<Rightarrow> bool" where
  "readable_file file_lines ctx_size =
     (list_all (\<lambda>line. split_ws line \<noteq> []) file_lines
      \<and> list_all (\<lambda>ctx. int (length ctx) = ctx_size) (row_contexts file_lines)
      \<and> list_all (\<lambda>toks. ints_of toks \<noteq> None) (rec_numbers file_lines)
      \<and> list_all (\<lambda>ctx. ints_of ctx \<noteq> None)
           (take (length (rec_numbers file_lines)) (row_contexts file_lines)))"

section \<open>The training loops\<close>

text \<open>
  Both notebooks train with
  \<^verbatim>\<open>
  for epoch in range(n_epochs):
      model.train()
      losses = []
      for ... in <edge sampler>:
          loss = model(...)
          optimizer.zero_grad()
          loss.backward()
          optimizer.step()
          losses.append(loss.detach().item())
      <first evaluation of the model>
      <second evaluation of the model>
      print(...)
  \<close>
  (\<^verbatim>\<open>RecEval\<close> and \<^verbatim>\<open>RecEvalAll\<close> in the FISM notebook, \<^verbatim>\<open>RecEvaluate\<close> on the easy and
  on the hard test pairs in the retail notebook). The state is the model with its
  optimizer; \<open>step\<close> is one update on a batch, \<open>eval1\<close> and \<open>eval2\<close> are the two
  evaluations, \<open>sampler epoch\<close> is the list of batches the edge sampler produces in that
  epoch. The loop is run in program order and records what it does in a trace.
\<close>

datatype ('b, 'r) event = Update nat 'b | Evaluate nat 'r

fun run_batches :: "('m \<Rightarrow> 'b \<Rightarrow> 'm) \<Rightarrow> nat \<Rightarrow> 'b list \<Rightarrow> 'm \<Rightarrow> ('b, 'r) event list
    \<Rightarrow> 'm \<times> ('b, 'r) event list" where
  "run_batches step epoch [] model tr = (model, tr)"
| "run_batches step epoch (batch # batches) model tr =
     run_batches step epoch batches (step model batch) (tr @ [Update epoch batch])"

fun run_epochs :: "('m \<Rightarrow> 'b \<Rightarrow> 'm) \<Rightarrow> ('m \<Rightarrow> 'r) \<Rightarrow> ('m \<Rightarrow> 'r) \<Rightarrow> (nat \<Rightarrow> 'b list)
    \<Rightarrow> nat list \<Rightarrow> 'm \<Rightarrow> ('b, 'r) event list \<Rightarrow> 'm \<times> ('b, 'r) event list" where
  "run_epochs step eval1 eval2 sampler [] model tr = (model, tr)"
| "run_epochs step eval1 eval2 sampler (epoch # epochs) model tr =
     (case run_batches step epoch (sampler epoch) model tr of
        (model', tr') \<Rightarrow>
          run_epochs step eval1 eval2 sampler epochs model'
            (tr' @ [Evaluate epoch (eval1 model'), Evaluate epoch (eval2 model')]))"

definition training_loop :: "('m \<Rightarrow> 'b \<Rightarrow> 'm) \<Rightarrow> ('m \<Rightarrow> 'r) \<Rightarrow> ('m \<Rightarrow> 'r) \<Rightarrow> (nat \<Rightarrow> 'b list)
    \<Rightarrow> nat \<Rightarrow> 'm \<Rightarrow> 'm \<times> ('b, 'r) event list" where
  "training_loop step eval1 eval2 sampler n_epochs model =
     run_epochs step eval1 eval2 sampler [0..<n_epochs] model []"

text \<open>
  For the statement: the model after every update of the epochs up to \<open>epoch\<close>, the events
  of one epoch, and a time stamp that orders updates and evaluations.
\<close>

definition model_after :: "('m \<Rightarrow> 'b \<Rightarrow> 'm) \<Rightarrow> (nat \<Rightarrow> 'b list) \<Rightarrow> 'm \<Rightarrow> nat \<Rightarrow> 'm" where
  "model_after step sampler model epoch = foldl step model (concat (map sampler [0..<Suc epoch]))"

definition epoch_events :: "('m \<Rightarrow> 'b \<Rightarrow> 'm) \<Rightarrow> ('m \<Rightarrow> 'r) \<Rightarrow> ('m \<Rightarrow> 'r) \<Rightarrow> (nat \<Rightarrow> 'b list)
    \<Rightarrow> 'm \<Rightarrow> nat \<Rightarrow> ('b, 'r) event list" where
  "epoch_events step eval1 eval2 sampler model epoch =
     map (Update epoch) (sampler epoch)
     @ [Evaluate epoch (eval1 (model_after step sampler model epoch)),
        Evaluate epoch (eval2 (model_after step sampler model epoch))]"

fun stamp :: "('b, 'r) event \<Rightarrow> nat" where
  "stamp (Update e b) = 2 * e"
| "stamp (Evaluate e r) = 2 * e + 1"

section \<open>pick_test (MovieLens preprocessing)\<close>

text \<open>
  The interaction matrix in COO form is the pair of its index arrays \<open>users\<close> (\<^verbatim>\<open>row\<close>) and
  \<open>movies\<close> (\<^verbatim>\<open>col\<close>), in the order in which the entries are stored; all values are one.
  Its first dimension, when the shape is inferred, is the largest row index plus one.
  \<^verbatim>\<open>tocsr()\<close> adds up duplicate entries, so \<^verbatim>\<open>indptr[i]\<close> is the number of different
  (user, movie) pairs with a user below \<open>i\<close>.
\<close>

definition coo_shape0 :: "nat list \<Rightarrow> nat" where
  "coo_shape0 users = (if users = [] then 0 else Suc (Max (set users)))"

definition csr_indptr :: "nat list \<Rightarrow> nat list \<Rightarrow> nat list" where
  "csr_indptr users movies =
     map (\<lambda>i. length (remdups (filter (\<lambda>(u, m). u < i) (zip users movies))))
       [0..<Suc (coo_shape0 users)]"

text \<open>
  \<^verbatim>\<open>
  def pick_test(user_movie_spm):
      users = user_movie_spm.row
      movies = user_movie_spm.col
      picks = np.zeros(shape=(len(users)))
      user_movie_spm = user_movie_spm.tocsr()
      indptr = user_movie_spm.indptr
      valid_set = np.zeros(shape=(num_users))
      test_set = np.zeros(shape=(num_users))
      for i in range(user_movie_spm.shape[0]):
          start_idx = indptr[i]
          end_idx = indptr[i+1]
          idx = np.random.choice(np.arange(start_idx, end_idx), 2, replace=False)
          valid_set[i] = movies[idx[0]]
          picks[idx[0]] = 1
          test_set[i] = movies[idx[1]]
          picks[idx[1]] = 1
      users = users[picks == 0]
      movies = movies[picks == 0]
      return spsp.coo_matrix((np.ones((len(users),)), (users, movies))), valid_set, test_set
  \<close>
  The random source is the list \<open>rand\<close> of the outcomes of the successive calls of
  \<^verbatim>\<open>np.random.choice\<close>, each a pair \<^verbatim>\<open>(idx[0], idx[1])\<close>. \<^verbatim>\<open>np.random.choice\<close> raises when
  fewer than two positions are offered, and \<^verbatim>\<open>coo_matrix\<close> raises when no entry is left
  to infer a shape from.
\<close>

fun pick_loop :: "nat list \<Rightarrow> nat list \<Rightarrow> nat list \<Rightarrow> (nat \<times> nat) list
    \<Rightarrow> nat list \<times> nat list \<times> bool list \<Rightarrow> (nat list \<times> nat list \<times> bool list) option" where
  "pick_loop movies indptr [] rand st = Some st"
| "pick_loop movies indptr (i # is) rand (valid_set, test_set, picks) =
     (let start_idx = indptr ! i; end_idx = indptr ! (i + 1) in
      if end_idx - start_idx < 2 then None
      else case rand of
        [] \<Rightarrow> None
      | (idx0, idx1) # rand' \<Rightarrow>
          pick_loop movies indptr is rand'
            (valid_set[i := movies ! idx0], test_set[i := movies ! idx1],
             picks[idx0 := True, idx1 := True]))"

definition pick_test :: "nat list \<Rightarrow> nat list \<Rightarrow> (nat \<times> nat) list
    \<Rightarrow> ((nat list \<times> nat list) \<times> nat list \<times> nat list) option" where
  "pick_test users movies rand =
     (let num_users = coo_shape0 users;
          indptr = csr_indptr users movies in
      case pick_loop movies indptr [0..<num_users] rand
             (replicate num_users 0, replicate num_users 0, replicate (length users) False) of
        None \<Rightarrow> None
      | Some (valid_set, test_set, picks) \<Rightarrow>
          (let users' = map fst (filter (\<lambda>(u, p). \<not> p) (zip users picks));
               movies' = map fst (filter (\<lambda>(m, p). \<not> p) (zip movies picks))
           in if users' = [] then None else Some ((users', movies'), valid_set, test_set)))"

text \<open>
  The outcomes \<^verbatim>\<open>np.random.choice(np.arange(start, end), 2, replace=False)\<close> can have: one
  pair per row, two different positions of \<open>[indptr[i], indptr[i+1])\<close>.
\<close>

definition choice_outcomes :: "nat list \<Rightarrow> (nat \<times> nat) list \<Rightarrow> bool" where
  "choice_outcomes indptr rand =
     (Suc (length rand) = length indptr
      \<and> list_all (\<lambda>(i, a, b). a \<noteq> b \<and> indptr ! i \<le> a \<and> a < indptr ! (i + 1)
                                \<and> indptr ! i \<le> b \<and> b < indptr ! (i + 1))
           (zip [0..<length rand] rand))"

section \<open>gen_neg_set (MovieLens preprocessing)\<close>

text \<open>
  \<^verbatim>\<open>
  def gen_neg_set(user_movie_spm, neg_sample_size):
      num_users = user_movie_spm.shape[0]
      num_movies = user_movie_spm.shape[1]
      neg_mat = np.zeros(shape=(num_users, neg_sample_size))
      for user in range(num_users):
          movie_set = set()
          while len(movie_set) < neg_sample_size:
              movies = np.random.choice(num_movies, neg_sample_size, replace=False)
              for movie in movies:
                  if user_movie_spm[user, movie] == 0:
                      movie_set.add(movie)
                  if len(movie_set) == neg_sample_size:
                      break
          neg_mat[user] = np.array(list(movie_set))

      for user, movies in enumerate(neg_mat):
          for idx, movie in enumerate(movies):
              assert user_movie_spm[user, movie] == 0

      return neg_mat
  \<close>
  The matrix is the function \<open>spm\<close> of its entries (numbers of interactions) together
  with its two dimensions. The random source is \<open>draws\<close>: \<open>draws user t\<close> is the array the
  \<open>t\<close>-th call of \<^verbatim>\<open>np.random.choice\<close> returns while \<open>user\<close> is being sampled; what such
  arrays are like is said by \<open>random_choices\<close> below. The call raises a \<^verbatim>\<open>ValueError\<close> when
  more movies are asked for than there are. A Python set is kept as
  a list without repetition; the order in which \<^verbatim>\<open>list(movie_set)\<close> enumerates it is not
  modelled, and the movie ids, which \<^verbatim>\<open>neg_mat\<close> stores as floating-point numbers, are
  kept as naturals. The \<^verbatim>\<open>while\<close> loop has no bound, so a run that never leaves it is the
  result \<open>None\<close>.
\<close>

datatype py_error = ValueError | AssertionError

text \<open>The body of \<^verbatim>\<open>for movie in movies\<close>, with its \<^verbatim>\<open>break\<close>.\<close>

fun add_movies :: "(nat \<Rightarrow> real) \<Rightarrow> nat \<Rightarrow> nat list \<Rightarrow> nat list \<Rightarrow> nat list" where
  "add_movies row neg_sample_size [] movie_set = movie_set"
| "add_movies row neg_sample_size (movie # movies) movie_set =
     (let movie_set' = (if row movie = 0 then List.insert movie movie_set else movie_set)
      in if length movie_set' = neg_sample_size then movie_set'
         else add_movies row neg_sample_size movies movie_set')"

text \<open>The \<^verbatim>\<open>while\<close> loop of one user, from the \<open>t\<close>-th draw on.\<close>

partial_function (option) sample_user ::
  "(nat \<Rightarrow> nat list) \<Rightarrow> nat \<Rightarrow> (nat \<Rightarrow> real) \<Rightarrow> nat \<Rightarrow> nat \<Rightarrow> nat list
    \<Rightarrow> (py_error + nat list) option" where
  "sample_user draws t row num_movies neg_sample_size movie_set =
     (if length movie_set < neg_sample_size then
        (if num_movies < neg_sample_size then Some (Inl ValueError)
         else sample_user draws (Suc t) row num_movies neg_sample_size
                (add_movies row neg_sample_size (draws t) movie_set))
      else Some (Inr movie_set))"

text \<open>The loop over the users, and the whole function with its final assertions.\<close>

fun sample_users :: "(nat \<Rightarrow> nat \<Rightarrow> nat list) \<Rightarrow> (nat \<Rightarrow> nat \<Rightarrow> real) \<Rightarrow> nat \<Rightarrow> nat \<Rightarrow> nat list
    \<Rightarrow> nat list list \<Rightarrow> (py_error + nat list list) option" where
  "sample_users draws spm num_movies neg_sample_size [] neg_mat = Some (Inr neg_mat)"
| "sample_users draws spm num_movies neg_sample_size (user # users) neg_mat =
     (case sample_user (draws user) 0 (spm user) num_movies neg_sample_size [] of
        None \<Rightarrow> None
      | Some (Inl e) \<Rightarrow> Some (Inl e)
      | Some (Inr movie_set) \<Rightarrow>
          sample_users draws spm num_movies neg_sample_size users (neg_mat @ [movie_set]))"

definition gen_neg_set :: "(nat \<Rightarrow> nat \<Rightarrow> nat list) \<Rightarrow> nat \<Rightarrow> nat \<Rightarrow> (nat \<Rightarrow> nat \<Rightarrow> real) \<Rightarrow> nat
    \<Rightarrow> (py_error + nat list list) option" where
  "gen_neg_set draws num_users num_movies spm neg_sample_size =
     (case sample_users draws spm num_movies neg_sample_size [0..<num_users] [] of
        None \<Rightarrow> None
      | Some (Inl e) \<Rightarrow> Some (Inl e)
      | Some (Inr neg_mat) \<Rightarrow>
          if list_all (\<lambda>(user, movies). list_all (\<lambda>movie. spm user movie = 0) movies)
               (zip [0..<num_users] neg_mat)
          then Some (Inr neg_mat) else Some (Inl AssertionError))"

text \<open>
  A row of the returned matrix as it should be: \<open>n\<close> different movies, none of them
  interacted with.
\<close>

definition good_row :: "(nat \<Rightarrow> real) \<Rightarrow> nat \<Rightarrow> nat list \<Rightarrow> bool" where
  "good_row row n ms = (distinct ms \<and> length ms = n \<and> list_all (\<lambda>m. row m = 0) ms)"

text \<open>
  The arrays \<^verbatim>\<open>np.random.choice(num_movies, k, replace=False)\<close> returns, call after call:
  each holds \<open>k\<close> different movie ids below \<open>num_movies\<close>, and no movie id stays away for
  ever (a sequence of draws in which some id is never drawn again has probability
  zero).
\<close>

definition random_choices :: "nat \<Rightarrow> nat \<Rightarrow> (nat \<Rightarrow> nat list) \<Rightarrow> bool" where
  "random_choices num_movies k draws =
     ((\<forall>t. length (draws t) = k \<and> distinct (draws t) \<and> (\<forall>m \<in> set (draws t). m < num_movies))
      \<and> (\<forall>t. \<forall>m < num_movies. \<exists>t' \<ge> t. m \<in> set (draws t')))"

text \<open>
  The cells around \<^verbatim>\<open>gen_neg_set\<close>. The original matrix is
  \<^verbatim>\<open>spsp.coo_matrix((np.ones(...), (user_id, movie_id))).tocsr()\<close>: its entry \<open>(u, m)\<close> is
  the number of times the pair occurs in the index arrays, and its shape is inferred
  from the largest indices.
\<close>

definition coo_entry :: "nat list \<Rightarrow> nat list \<Rightarrow> nat \<Rightarrow> nat \<Rightarrow> real" where
  "coo_entry users movies u m = real (length (filter (\<lambda>p. p = (u, m)) (zip users movies)))"

text \<open>
  \<^verbatim>\<open>
  user_movie_spm, valid_set, test_set = pick_test(user_movie_spm)
  ...
  coo = user_movie_spm.tocoo()
  train_map = {}
  valid_map = {}
  test_map = {}
  with open("train.txt","w") as file:
      for row, col in zip(coo.row, coo.col):
          train_map[(row, col)] = 1
          file.write(str(row) + ', ' + str(col) + '\n')
  with open('valid.txt', 'w') as file:
      for row, col in enumerate(valid_set):
          valid_map[(row, col)] = 1
          file.write(str(row) + ', ' + str(int(col)) + '\n')
  with open('test.txt', 'w') as file:
      for row, col in enumerate(test_set):
          test_map[(row, col)] = 1
          file.write(str(row) + ', ' + str(int(col)) + '\n')
  \<close>
  All values of the three dictionaries are 1; a dictionary is given by the list of its
  keys.
\<close>

definition split_maps :: "nat list \<Rightarrow> nat list \<Rightarrow> (nat \<times> nat) list
    \<Rightarrow> ((nat \<times> nat) list \<times> (nat \<times> nat) list \<times> (nat \<times> nat) list) option" where
  "split_maps users movies rand =
     (case pick_test users movies rand of
        None \<Rightarrow> None
      | Some ((train_users, train_movies), valid_set, test_set) \<Rightarrow>
          Some (zip train_users train_movies,
                zip [0..<length valid_set] valid_set,
                zip [0..<length test_set] test_set))"

text \<open>
  \<^verbatim>\<open>
  with open('neg_valid.txt', 'w') as file:
      for row, cols in enumerate(neg_valid):
          for col in cols:
              assert (row, col) not in train_map
              assert (row, col) not in valid_map
              assert (row, col) not in test_map
              file.write(str(row) + ', ' + str(int(col)) + '\n')
  \<close>
  and the same for \<^verbatim>\<open>neg_test\<close>. The file written is the list of its pairs.
\<close>

definition save_negatives :: "nat list list \<Rightarrow> (nat \<times> nat) list \<Rightarrow> (nat \<times> nat) list
    \<Rightarrow> (nat \<times> nat) list \<Rightarrow> py_error + (nat \<times> nat) list" where
  "save_negatives neg train_map valid_map test_map =
     (let pairs = concat (map (\<lambda>(row, cols). map (\<lambda>col. (row, col)) cols)
                            (zip [0..<length neg] neg))
      in if list_all (\<lambda>p. p \<notin> set train_map \<and> p \<notin> set valid_map \<and> p \<notin> set test_map) pairs
         then Inr pairs else Inl AssertionError)"

section \<open>Properties\<close>

lemma hidden_layers_replicate: "hidden_layers n l layers = layers @ replicate n l"
proof (induction n arbitrary: layers)
  case 0
  show ?case by simp
next
  case (Suc n)
  show ?case by (simp add: Suc.IH replicate_app_Cons_same)
qed

lemma fism_layers_loop_foldl:
  "fism_layers_loop ues call_w call sim ls g h
     = foldl (\<lambda>h l. if ues then call_w l g h (sim g) else call l g h) h ls"
  by (induction ls arbitrary: h) simp_all

lemma retail_layers_loop_foldl:
  "retail_layers_loop call_w sim ls g h = foldl (\<lambda>h l. call_w l g h (sim g)) h ls"
  by (induction ls arbitrary: h) simp_all

lemma foldl_replicate_funpow: "foldl (\<lambda>h l. f l h) h (replicate k l) = (f l ^^ k) h"
  by (induction k arbitrary: h) (simp_all add: funpow_swap1)

lemma foldl_in_hidden_out:
  "foldl (\<lambda>h l. f l h) h (a # replicate k b @ [c]) = f c ((f b ^^ k) (f a h))"
  by (simp add: foldl_replicate_funpow)

text \<open>
  Claim C5. A model built with \<open>n_layers \<ge> 1\<close> holds exactly \<open>n_layers\<close> layers: one
  \<open>in_feats\<close>-to-\<open>out_dim\<close> layer without activation when \<open>n_layers = 1\<close>, otherwise an
  input layer, \<open>n_layers - 2\<close> hidden layers and an output layer. \<open>forward\<close> calls the
  layers on the graph from first to last, each on the output of the one before and the
  first on the features (in the FISM notebook with the edge attribute exactly when
  \<^verbatim>\<open>use_edge_similarity\<close> holds, in the retail notebook always with it), and then applies
  the final module. With \<open>n_layers = 0\<close> the list is empty and \<open>forward\<close> is the final
  module applied to the input features, whatever the graph.
\<close>

theorem GraphSAGEModel_layers_forward:
  fixes n_layers in_feats n_hidden out_dim :: int and act :: 'act and dropout :: 'drop
    and agg :: string and use_edge_similarity :: bool
    and call_w :: "('act, 'drop) SAGEConv \<Rightarrow> 'g \<Rightarrow> 'h \<Rightarrow> 'w \<Rightarrow> 'h"
    and call :: "('act, 'drop) SAGEConv \<Rightarrow> 'g \<Rightarrow> 'h \<Rightarrow> 'h"
    and edata_similarity :: "'g \<Rightarrow> 'w" and layer_norm proj :: "'h \<Rightarrow> 'h" and g :: 'g and features :: 'h
  defines "ls \<equiv> GraphSAGEModel_layers in_feats n_hidden out_dim n_layers act dropout agg"
  defines "single \<equiv> SAGEConv in_feats out_dim agg dropout None"
  defines "inp \<equiv> SAGEConv in_feats n_hidden agg dropout (Some act)"
  defines "hid \<equiv> SAGEConv n_hidden n_hidden agg dropout (Some act)"
  defines "out \<equiv> SAGEConv n_hidden out_dim agg dropout None"
  defines "ap \<equiv> \<lambda>layer h. if use_edge_similarity then call_w layer g h (edata_similarity g)
                            else call layer g h"
  defines "apw \<equiv> \<lambda>layer h. call_w layer g h (edata_similarity g)"
  defines "fwd \<equiv> GraphSAGEModel_forward use_edge_similarity call_w call edata_similarity layer_norm"
  defines "fwd_retail \<equiv> GraphSAGEModel_forward_retail call_w edata_similarity proj"
  shows "(n_layers \<ge> 1 \<longrightarrow> int (length ls) = n_layers)
    \<and> (n_layers = 1 \<longrightarrow> ls = [single]
          \<and> fwd ls g features = layer_norm (ap single features)
          \<and> fwd_retail ls g features = proj (apw single features))
    \<and> (n_layers > 1 \<longrightarrow> ls = inp # replicate (nat (n_layers - 2)) hid @ [out]
          \<and> fwd ls g features = layer_norm (ap out ((ap hid ^^ nat (n_layers - 2)) (ap inp features)))
          \<and> fwd_retail ls g features
              = proj (apw out ((apw hid ^^ nat (n_layers - 2)) (apw inp features))))
    \<and> (n_layers = 0 \<longrightarrow> ls = []
          \<and> (\<forall>g'. fwd ls g' features = layer_norm features)
          \<and> (\<forall>g'. fwd_retail ls g' features = proj features))
    \<and> fwd layers g features = layer_norm (foldl (\<lambda>h layer. ap layer h) features layers)
    \<and> fwd_retail layers g features = proj (foldl (\<lambda>h layer. apw layer h) features layers)"
proof -
  have F: "fwd xs g features = layer_norm (foldl (\<lambda>h layer. ap layer h) features xs)" for xs
    by (simp add: fwd_def ap_def GraphSAGEModel_forward_def fism_layers_loop_foldl)
  have R: "fwd_retail xs g features = proj (foldl (\<lambda>h layer. apw layer h) features xs)" for xs
    by (simp add: fwd_retail_def apw_def GraphSAGEModel_forward_retail_def
        retail_layers_loop_foldl)
  have l1: "n_layers = 1 \<Longrightarrow> ls = [single]"
    by (simp add: ls_def single_def GraphSAGEModel_layers_def)
  have l2: "n_layers > 1 \<Longrightarrow> ls = inp # replicate (nat (n_layers - 2)) hid @ [out]"
    by (simp add: ls_def inp_def hid_def out_def GraphSAGEModel_layers_def
        hidden_layers_replicate)
  have l0: "n_layers = 0 \<Longrightarrow> ls = []"
    by (simp add: ls_def GraphSAGEModel_layers_def)
  have len: "n_layers \<ge> 1 \<Longrightarrow> int (length ls) = n_layers"
    using l1 l2 by (cases "n_layers = 1") simp_all
  have c1: "n_layers = 1 \<longrightarrow> ls = [single]
          \<and> fwd ls g features = layer_norm (ap single features)
          \<and> fwd_retail ls g features = proj (apw single features)"
    using l1 by (simp add: F R)
  have c2: "n_layers > 1 \<longrightarrow> ls = inp # replicate (nat (n_layers - 2)) hid @ [out]
          \<and> fwd ls g features = layer_norm (ap out ((ap hid ^^ nat (n_layers - 2)) (ap inp features)))
          \<and> fwd_retail ls g features
              = proj (apw out ((apw hid ^^ nat (n_layers - 2)) (apw inp features)))"
  proof
    assume "n_layers > 1"
    from l2[OF this] show "ls = inp # replicate (nat (n_layers - 2)) hid @ [out]
          \<and> fwd ls g features = layer_norm (ap out ((ap hid ^^ nat (n_layers - 2)) (ap inp features)))
          \<and> fwd_retail ls g features
              = proj (apw out ((apw hid ^^ nat (n_layers - 2)) (apw inp features)))"
      by (simp only: F R foldl_in_hidden_out simp_thms)
  qed
  have c0: "n_layers = 0 \<longrightarrow> ls = []
          \<and> (\<forall>g'. fwd ls g' features = layer_norm features)
          \<and> (\<forall>g'. fwd_retail ls g' features = proj features)"
    using l0 by (simp add: fwd_def fwd_retail_def GraphSAGEModel_forward_def
        GraphSAGEModel_forward_retail_def)
  have cl: "n_layers \<ge> 1 \<longrightarrow> int (length ls) = n_layers"
    using len by simp
  from cl c1 c2 c0 F[of layers] R[of layers] show ?thesis
    by - (intro conjI, assumption+)
qed

text \<open>
  A layer call that appends a number identifying the layer (and the edge attribute it
  was given) to a list shows the order of the calls, for three layers, one and none.
\<close>

theorem GraphSAGEModel_layers_forward_witness:
  "GraphSAGEModel_forward True
       (\<lambda>l (g::int) h w. h @ [100 * conv_in l + conv_out l + w]) (\<lambda>l g h. h @ [- 1])
       (\<lambda>g. 1000 * g) (\<lambda>h. 0 # h)
       (GraphSAGEModel_layers 1 2 3 3 ''relu'' (0::nat) ''sum'') 7 []
     = [0, 7102, 7202, 7203]
   \<and> GraphSAGEModel_forward False
       (\<lambda>l (g::int) h w. h @ [100 * conv_in l + conv_out l + w]) (\<lambda>l g h. h @ [conv_out l])
       (\<lambda>g. 1000 * g) (\<lambda>h. 0 # h)
       (GraphSAGEModel_layers 1 2 3 1 ''relu'' (0::nat) ''sum'') 7 []
     = [0, 3]
   \<and> GraphSAGEModel_forward_retail
       (\<lambda>l (g::int) h w. h @ [100 * conv_in l + conv_out l + w])
       (\<lambda>g. 1000 * g) (\<lambda>h. 5 # h)
       (GraphSAGEModel_layers 1 2 3 0 ''relu'' (0::nat) ''sum'') 7 [4]
     = [5, 4]
   \<and> int (length (GraphSAGEModel_layers 1 2 3 3 ''relu'' (0::nat) ''sum'')) = 3"
proof -
  note a = GraphSAGEModel_layers_forward [of 3 1 2 3 "''relu''" "0::nat" "''sum''" True
      "\<lambda>l (g::int) h w. h @ [100 * conv_in l + conv_out l + w]" "\<lambda>l g h. h @ [- 1]"
      "\<lambda>g. 1000 * g" "\<lambda>h. 0 # h" 7 "[]" "\<lambda>h. 5 # h" "[]"]
  note b = GraphSAGEModel_layers_forward [of 1 1 2 3 "''relu''" "0::nat" "''sum''" False
      "\<lambda>l (g::int) h w. h @ [100 * conv_in l + conv_out l + w]" "\<lambda>l g h. h @ [conv_out l]"
      "\<lambda>g. 1000 * g" "\<lambda>h. 0 # h" 7 "[]" "\<lambda>h. 5 # h" "[]"]
  note c = GraphSAGEModel_layers_forward [of 0 1 2 3 "''relu''" "0::nat" "''sum''" True
      "\<lambda>l (g::int) h w. h @ [100 * conv_in l + conv_out l + w]" "\<lambda>l g h. h @ [- 1]"
      "\<lambda>g. 1000 * g" "\<lambda>h. 0 # h" 7 "[4]" "\<lambda>h. 5 # h" "[]"]
  have p3: "(1::int) < 3" and p1: "(1::int) = 1" and p0: "(0::int) = 0" and p4: "(1::int) \<le> 3"
    by simp_all
  note a3 = a[THEN conjunct2, THEN conjunct2, THEN conjunct1, THEN mp, OF p3,
      THEN conjunct2, THEN conjunct1]
  note b1 = b[THEN conjunct2, THEN conjunct1, THEN mp, OF p1, THEN conjunct2, THEN conjunct1]
  note c0 = c[THEN conjunct2, THEN conjunct2, THEN conjunct2, THEN conjunct1, THEN mp, OF p0,
      THEN conjunct2, THEN conjunct2, THEN spec, of 7]
  note a4 = a[THEN conjunct1, THEN mp, OF p4]
  have 1: "GraphSAGEModel_forward True
       (\<lambda>l (g::int) h w. h @ [100 * conv_in l + conv_out l + w]) (\<lambda>l g h. h @ [- 1])
       (\<lambda>g. 1000 * g) (\<lambda>h. 0 # h)
       (GraphSAGEModel_layers 1 2 3 3 ''relu'' (0::nat) ''sum'') 7 []
     = [0, 7102, 7202, 7203]"
    by (subst a3) simp
  have 2: "GraphSAGEModel_forward False
       (\<lambda>l (g::int) h w. h @ [100 * conv_in l + conv_out l + w]) (\<lambda>l g h. h @ [conv_out l])
       (\<lambda>g. 1000 * g) (\<lambda>h. 0 # h)
       (GraphSAGEModel_layers 1 2 3 1 ''relu'' (0::nat) ''sum'') 7 []
     = [0, 3]"
    by (subst b1) simp
  have 3: "GraphSAGEModel_forward_retail
       (\<lambda>l (g::int) h w. h @ [100 * conv_in l + conv_out l + w])
       (\<lambda>g. 1000 * g) (\<lambda>h. 5 # h)
       (GraphSAGEModel_layers 1 2 3 0 ''relu'' (0::nat) ''sum'') 7 [4]
     = [5, 4]"
    by (subst c0) simp
  have 4: "int (length (GraphSAGEModel_layers 1 2 3 3 ''relu'' (0::nat) ''sum'')) = 3"
    by (rule a4)
  from 1 2 3 4 show ?thesis by (intro conjI)
qed

lemma those_map_Some:
  "(\<And>x. x \<in> set xs \<Longrightarrow> f x = Some (g x)) \<Longrightarrow> those (map f xs) = Some (map g xs)"
  by (induction xs) simp_all

lemma those_eq_Some_map:
  "those (map f xs) = Some ys \<Longrightarrow> length ys = length xs \<and> (\<forall>i < length xs. f (xs ! i) = Some (ys ! i))"
proof (induction xs arbitrary: ys)
  case Nil then show ?case by simp
next
  case (Cons x xs)
  then show ?case
    by (auto split: option.splits simp: nth_Cons split: nat.splits)
qed

lemma py_index_lt: "py_index n i = Some a \<Longrightarrow> a < n"
  by (auto simp: py_index_def split: if_splits)


lemma py_index_wrap:
  "- int n \<le> i \<Longrightarrow> i < int n \<Longrightarrow> py_index n i = Some (wrap_index n i) \<and> wrap_index n i < n"
  by (auto simp: py_index_def wrap_index_def)

lemma has_shape_nth: "has_shape r c m \<Longrightarrow> a < r \<Longrightarrow> length (m ! a) = c"
  by (simp add: has_shape_def list_all_length)

lemma np_eye_nth: "a < n \<Longrightarrow> b < n \<Longrightarrow> np_eye n ! a ! b = (if a = b then 1 else 0)"
  by (simp add: np_eye_def)

lemma mat_sub_eye_row:
  assumes "has_shape n n s" "a < n"
  shows "mat_sub s (np_eye n) ! a = map (\<lambda>j. s ! a ! j - (if a = j then 1 else 0)) [0..<n]"
proof -
  have len: "length (s ! a) = n" using assms by (rule has_shape_nth)
  have ls: "length s = n" using assms(1) by (simp add: has_shape_def)
  have "mat_sub s (np_eye n) ! a = map2 (-) (s ! a) (np_eye n ! a)"
    using assms(2) ls by (simp add: mat_sub_def np_eye_def)
  also have "\<dots> = map (\<lambda>j. s ! a ! j - (if a = j then 1 else 0)) [0..<n]"
    using len assms(2) by (intro nth_equalityI) (simp_all add: np_eye_def)
  finally show ?thesis .
qed

lemma np_mean_card:
  "bs \<noteq> [] \<Longrightarrow> np_mean bs = Some (real (card {i. i < length bs \<and> bs ! i}) / real (length bs))"
  by (simp add: np_mean_def length_filter_conv_card)

text \<open>
  Claim C4, as amended. \<open>knnEvaluate\<close> subtracts the identity matrix from the score
  matrix and returns the mean, over the query/truth pairs, of the indicator that fewer
  than 3 items have a score against the query that is greater than or equal to the
  score of the truth item; the number of such items is the entry of \<open>knn_counts\<close>. The
  truth item is itself among the items counted exactly when its score is greater than
  or equal to itself, which a NaN is not.
\<close>

theorem knnEvaluate_hits:
  fixes data :: "'a::{minus,zero,one,ord} matrix" and score_fn :: "'a matrix \<Rightarrow> 'a matrix"
    and query_eval item_eval :: "int list"
  defines "n \<equiv> length data"
  defines "q \<equiv> \<lambda>i. wrap_index n (query_eval ! i)"
  defines "t \<equiv> \<lambda>i. wrap_index n (item_eval ! i)"
  defines "score \<equiv> \<lambda>a b. score_fn data ! a ! b - (if a = b then 1 else 0)"
  assumes shape: "has_shape n n (score_fn data)"
    and len: "length query_eval = length item_eval"
    and ne: "query_eval \<noteq> []"
    and qr: "\<forall>x \<in> set query_eval. - int n \<le> x \<and> x < int n"
    and tr: "\<forall>x \<in> set item_eval. - int n \<le> x \<and> x < int n"
  shows "knn_counts data query_eval item_eval score_fn
           = Some (map (\<lambda>i. card {j. j < n \<and> score (q i) j \<ge> score (q i) (t i)})
                     [0..<length query_eval])
         \<and> knnEvaluate data query_eval item_eval score_fn
           = Some (real (card {i. i < length query_eval
                                  \<and> card {j. j < n \<and> score (q i) j \<ge> score (q i) (t i)} < 3})
                   / real (length query_eval))
         \<and> (\<forall>i < length query_eval. t i < n
                \<and> (t i \<in> {j. j < n \<and> score (q i) j \<ge> score (q i) (t i)})
                    = (score (q i) (t i) \<ge> score (q i) (t i)))"
proof -
  define ranked where "ranked = (\<lambda>i. {j. j < n \<and> score (q i) j \<ge> score (q i) (t i)})"
  define scores where "scores = mat_sub (score_fn data) (np_eye n)"
  have ls: "length (score_fn data) = n"
    using shape by (simp add: has_shape_def)
  have row: "scores ! a = map (score a) [0..<n]" if "a < n" for a
    unfolding scores_def score_def using shape that by (rule mat_sub_eye_row)
  have qi: "py_index n x = Some (wrap_index n x) \<and> wrap_index n x < n" if "x \<in> set query_eval" for x
    using qr that by (intro py_index_wrap) auto
  have ti: "py_index n x = Some (wrap_index n x) \<and> wrap_index n x < n" if "x \<in> set item_eval" for x
    using tr that by (intro py_index_wrap) auto
  have truth: "those (map2 (\<lambda>q t. case (py_index n q, py_index n t) of
                                     (Some a, Some b) \<Rightarrow> Some (scores ! a ! b)
                                   | _ \<Rightarrow> None) query_eval item_eval)
      = Some (map (\<lambda>(x, y). score (wrap_index n x) (wrap_index n y)) (zip query_eval item_eval))"
  proof (rule those_map_Some)
    fix p assume pin: "p \<in> set (zip query_eval item_eval)"
    obtain x y where pxy: "p = (x, y)" by (cases p)
    have p: "p = (x, y)" "x \<in> set query_eval" "y \<in> set item_eval"
      using pin pxy by (auto dest: set_zip_leftD set_zip_rightD)
    show "(case p of (q, t) \<Rightarrow> (case (py_index n q, py_index n t) of
                                     (Some a, Some b) \<Rightarrow> Some (scores ! a ! b)
                                   | _ \<Rightarrow> None))
        = Some (case p of (x, y) \<Rightarrow> score (wrap_index n x) (wrap_index n y))"
      using qi[OF p(2)] ti[OF p(3)] by (simp add: p(1) row)
  qed
  have rows: "those (map (\<lambda>q. map_option (\<lambda>a. scores ! a) (py_index n q)) query_eval)
      = Some (map (\<lambda>x. map (score (wrap_index n x)) [0..<n]) query_eval)"
    by (rule those_map_Some) (use qi in \<open>simp add: row\<close>)
  define counts where "counts = map2 (\<lambda>row t. length (filter (\<lambda>s. s \<ge> t) row))
       (map (\<lambda>x. map (score (wrap_index n x)) [0..<n]) query_eval)
       (map (\<lambda>(x, y). score (wrap_index n x) (wrap_index n y)) (zip query_eval item_eval))"
  have lc: "length counts = length query_eval"
    by (simp add: counts_def len)
  have cnt: "counts ! i = card (ranked i)" if "i < length query_eval" for i
  proof -
    have "length (filter (\<lambda>s. s \<ge> score (q i) (t i)) (map (score (q i)) [0..<n]))
        = card {j. j < n \<and> score (q i) (t i) \<le> map (score (q i)) [0..<n] ! j}"
      by (simp add: length_filter_conv_card)
    also have "{j. j < n \<and> score (q i) (t i) \<le> map (score (q i)) [0..<n] ! j} = ranked i"
      by (auto simp: ranked_def)
    finally have "length (filter (\<lambda>s. s \<ge> score (q i) (t i)) (map (score (q i)) [0..<n]))
        = card (ranked i)" .
    then show ?thesis
      using that len by (simp add: counts_def q_def t_def)
  qed
  have kc: "knn_counts data query_eval item_eval score_fn = Some counts"
    using shape len truth rows
    by (simp add: knn_counts_def Let_def n_def[symmetric] scores_def[symmetric] counts_def)
  have ceq: "counts = map (\<lambda>i. card (ranked i)) [0..<length query_eval]"
    by (rule nth_equalityI) (simp_all add: lc cnt)
  define hits where "hits = map (\<lambda>c. c < 3) counts"
  have lh: "length hits = length query_eval" by (simp add: hits_def lc)
  have hit: "hits ! i = (card (ranked i) < 3)" if "i < length query_eval" for i
    using that by (simp add: hits_def lc cnt)
  have "knnEvaluate data query_eval item_eval score_fn = np_mean hits"
    by (simp add: knnEvaluate_def kc hits_def)
  also have "\<dots> = Some (real (card {i. i < length hits \<and> hits ! i}) / real (length hits))"
    using ne lh by (intro np_mean_card) auto
  also have "{i. i < length hits \<and> hits ! i} = {i. i < length query_eval \<and> card (ranked i) < 3}"
    using hit lh by auto
  finally have main: "knnEvaluate data query_eval item_eval score_fn
           = Some (real (card {i. i < length query_eval \<and> card (ranked i) < 3})
                   / real (length query_eval))"
    by (simp add: lh)
  have incl: "t i < n \<and> (t i \<in> ranked i) = (score (q i) (t i) \<ge> score (q i) (t i))"
    if "i < length query_eval" for i
  proof -
    have "t i < n" using ti[of "item_eval ! i"] that len by (simp add: t_def)
    then show ?thesis by (simp add: ranked_def)
  qed
  have c1: "knn_counts data query_eval item_eval score_fn
           = Some (map (\<lambda>i. card (ranked i)) [0..<length query_eval])"
    using kc ceq by simp
  have c3: "\<forall>i < length query_eval. t i < n
                \<and> (t i \<in> ranked i) = (score (q i) (t i) \<ge> score (q i) (t i))"
    using incl by simp
  from c1 main c3 show ?thesis
    unfolding ranked_def by - (intro conjI, assumption+)
qed

text \<open>
  Three items with the embeddings \<open>(1,0)\<close>, \<open>(0,1)\<close>, \<open>(1,1)\<close> and the pairs \<open>(0,2)\<close>,
  \<open>(1,2)\<close>, \<open>(-1,0)\<close>: the counts are 1, 1 and 3, so two of the three pairs are hits.
\<close>

theorem knnEvaluate_hits_witness:
  "knn_counts [[Num 1, Num 0], [Num 0, Num 1], [Num 1, Num 1]] [0, 1, - 1] [2, 2, 0] dot_score
     = Some [1, 1, 3]
   \<and> knnEvaluate [[Num 1, Num 0], [Num 0, Num 1], [Num 1, Num 1]] [0, 1, - 1] [2, 2, 0] dot_score
     = Some (2 / 3)
   \<and> card {i. i < length [0, 1, - 1 :: int]
          \<and> card {j. j < length [[Num 1, Num 0], [Num 0, Num 1], [Num 1, Num 1]]
                 \<and> dot_score [[Num 1, Num 0], [Num 0, Num 1], [Num 1, Num 1]]
                      ! wrap_index (length [[Num 1, Num 0], [Num 0, Num 1], [Num 1, Num 1]])
                          ([0, 1, - 1] ! i)
                      ! wrap_index (length [[Num 1, Num 0], [Num 0, Num 1], [Num 1, Num 1]])
                          ([2, 2, 0] ! i)
                    - (if wrap_index (length [[Num 1, Num 0], [Num 0, Num 1], [Num 1, Num 1]])
                            ([0, 1, - 1] ! i)
                          = wrap_index (length [[Num 1, Num 0], [Num 0, Num 1], [Num 1, Num 1]])
                              ([2, 2, 0] ! i)
                       then 1 else 0)
                   \<le> dot_score [[Num 1, Num 0], [Num 0, Num 1], [Num 1, Num 1]]
                      ! wrap_index (length [[Num 1, Num 0], [Num 0, Num 1], [Num 1, Num 1]])
                          ([0, 1, - 1] ! i) ! j
                    - (if wrap_index (length [[Num 1, Num 0], [Num 0, Num 1], [Num 1, Num 1]])
                            ([0, 1, - 1] ! i) = j
                       then 1 else 0)} < 3} = 2"
proof -
  define D where "D = [[Num 1, Num 0], [Num 0, Num 1], [Num 1, Num 1]]"
  define X where "X = {i. i < length [0, 1, - 1 :: int]
          \<and> card {j. j < length D
                 \<and> dot_score D ! wrap_index (length D) ([0, 1, - 1] ! i)
                      ! wrap_index (length D) ([2, 2, 0] ! i)
                    - (if wrap_index (length D) ([0, 1, - 1] ! i)
                          = wrap_index (length D) ([2, 2, 0] ! i)
                       then 1 else 0)
                   \<le> dot_score D ! wrap_index (length D) ([0, 1, - 1] ! i) ! j
                    - (if wrap_index (length D) ([0, 1, - 1] ! i) = j then 1 else 0)} < 3}"
  have h1: "has_shape (length D) (length D) (dot_score D)"
    by (simp add: has_shape_def dot_score_def D_def)
  have h2: "length [0, 1, - 1 :: int] = length [2, 2, 0 :: int]" by simp
  have h3: "[0, 1, - 1 :: int] \<noteq> []" by simp
  have h4: "\<forall>x \<in> set [0, 1, - 1 :: int]. - int (length D) \<le> x \<and> x < int (length D)"
    by (simp add: D_def)
  have h5: "\<forall>x \<in> set [2, 2, 0 :: int]. - int (length D) \<le> x \<and> x < int (length D)"
    by (simp add: D_def)
  have ev1: "knn_counts D [0, 1, - 1] [2, 2, 0] dot_score = Some [1, 1, 3]"
    unfolding D_def by code_simp
  have ev2: "knnEvaluate D [0, 1, - 1] [2, 2, 0] dot_score = Some (2 / 3)"
    by (simp add: knnEvaluate_def ev1 np_mean_def)
  have "knnEvaluate D [0, 1, - 1] [2, 2, 0] dot_score
      = Some (real (card X) / real (length [0, 1, - 1 :: int]))"
    unfolding X_def
    using knnEvaluate_hits [of D dot_score "[0, 1, - 1]" "[2, 2, 0]", OF h1 h2 h3 h4 h5]
    by (elim conjE)
  with ev2 have "real (card X) / real (length [0, 1, - 1 :: int]) = 2 / 3"
    by simp
  then have "card X = 2" by simp
  with ev1 ev2 show ?thesis unfolding X_def D_def by (intro conjI)
qed

text \<open>
  The claim's count always includes the truth item. With an embedding that holds a NaN
  it does not: all scores against item 0 are NaN, the score of the truth item 1
  included, no score is greater than or equal to it, and the count is zero.
\<close>

theorem knnEvaluate_nan_counterexample:
  "knn_counts [[NaN], [Num 1], [Num 1]] [0] [1] dot_score = Some [0]
   \<and> knnEvaluate [[NaN], [Num 1], [Num 1]] [0] [1] dot_score = Some 1"
proof -
  have c: "knn_counts [[NaN], [Num 1], [Num 1]] [0] [1] dot_score = Some [0]"
    by code_simp
  then have "knnEvaluate [[NaN], [Num 1], [Num 1]] [0] [1] dot_score = Some 1"
    by (simp add: knnEvaluate_def np_mean_def)
  with c show ?thesis by (rule conjI)
qed

lemma py_index_in_range:
  "in_range n i \<Longrightarrow> py_index n i = Some (wrap_index n i) \<and> wrap_index n i < n"
  by (auto simp: py_index_def wrap_index_def in_range_def)

lemma gather_Some:
  assumes "\<forall>i \<in> set idx. in_range (length tbl) i"
  shows "gather tbl idx = Some (map (\<lambda>i. tbl ! wrap_index (length tbl) i) idx)"
  unfolding gather_def
  by (rule those_map_Some) (use assms in \<open>simp add: py_index_in_range\<close>)

lemma scatter_add_rows_nth:
  "scatter_add_rows acc idx src = Some out \<Longrightarrow>
     length out = length acc
     \<and> (\<forall>b < length acc. out ! b
           = foldl (map2 (+)) (acc ! b) (map snd (filter (\<lambda>p. fst p = b) (zip idx src))))"
proof (induction acc idx src rule: scatter_add_rows.induct)
  case (1 acc)
  then show ?case by simp
next
  case (2 acc i idx row src)
  from "2.prems" have i: "i < length acc"
    and rec: "scatter_add_rows (acc[i := map2 (+) (acc ! i) row]) idx src = Some out"
    by (simp_all split: if_splits)
  from "2.IH"[OF i rec] show ?case
    by (auto simp: nth_list_update)
qed simp_all

lemma scatter_add_rows_Some:
  "length idx = length src \<Longrightarrow> \<forall>i \<in> set idx. i < length acc
     \<Longrightarrow> \<exists>out. scatter_add_rows acc idx src = Some out"
proof (induction acc idx src rule: scatter_add_rows.induct)
  case (2 acc i idx row src)
  then show ?case by simp
qed simp_all

lemma filter_zip_replicate_segments:
  assumes "sum_list ns = length src" "b < length ns"
  shows "map snd (filter (\<lambda>p. fst p = b) (zip (concat (map2 replicate ns [0..<length ns])) src))
       = take (ns ! b) (drop (sum_list (take b ns)) src)"
  using assms
proof (induction ns arbitrary: src b rule: rev_induct)
  case Nil
  then show ?case by simp
next
  case (snoc n ns)
  define m where "m = length ns"
  define pre where "pre = concat (map2 replicate ns [0..<m])"
  have lpre: "length pre = sum_list ns"
    unfolding pre_def m_def
  proof (induction ns rule: rev_induct)
    case Nil show ?case by simp
  next
    case (snoc x xs) then show ?case by simp
  qed
  have pre_lt: "\<forall>i \<in> set pre. i < m"
    unfolding pre_def by (auto dest!: set_zip_rightD)
  have idx: "concat (map2 replicate (ns @ [n]) [0..<length (ns @ [n])]) = pre @ replicate n m"
    by (simp add: pre_def m_def)
  have lsrc: "length src = sum_list ns + n" using snoc.prems by simp
  have z: "zip (pre @ replicate n m) src
      = zip pre (take (sum_list ns) src) @ zip (replicate n m) (drop (sum_list ns) src)"
    using lpre by (simp add: zip_append1)
  have split: "map snd (filter (\<lambda>p. fst p = b)
        (zip (concat (map2 replicate (ns @ [n]) [0..<length (ns @ [n])])) src))
      = map snd (filter (\<lambda>p. fst p = b) (zip pre (take (sum_list ns) src)))
        @ map snd (filter (\<lambda>p. fst p = b) (zip (replicate n m) (drop (sum_list ns) src)))"
    by (simp only: idx z filter_append map_append)
  show ?case
  proof (cases "b < m")
    case True
    have second: "filter (\<lambda>p. fst p = b) (zip (replicate n m) (drop (sum_list ns) src)) = []"
      using True by (auto simp: filter_empty_conv dest!: set_zip_leftD)
    have "map snd (filter (\<lambda>p. fst p = b) (zip pre (take (sum_list ns) src)))
        = take (ns ! b) (drop (sum_list (take b ns)) (take (sum_list ns) src))"
      unfolding pre_def m_def using True lsrc by (intro snoc.IH) (simp_all add: m_def)
    also have "\<dots> = take (ns ! b) (drop (sum_list (take b ns)) src)"
    proof -
      have "sum_list (take b ns) + ns ! b \<le> sum_list ns"
      proof -
        have "ns = take b ns @ ns ! b # drop (Suc b) ns"
          using True by (simp add: m_def id_take_nth_drop)
        then have "sum_list ns = sum_list (take b ns) + ns ! b + sum_list (drop (Suc b) ns)"
          by (metis add.assoc sum_list.Cons sum_list.append)
        then show ?thesis by simp
      qed
      then show ?thesis
        by (simp add: drop_take take_take min_def)
    qed
    finally have A: "map snd (filter (\<lambda>p. fst p = b) (zip pre (take (sum_list ns) src)))
        = take (ns ! b) (drop (sum_list (take b ns)) src)" .
    have bl: "b < length ns" using True by (simp add: m_def)
    show ?thesis
      unfolding split A second using bl by (simp add: nth_append)
  next
    case False
    with snoc.prems have b: "b = m" by (simp add: m_def)
    have first: "filter (\<lambda>p. fst p = b) (zip pre (take (sum_list ns) src)) = []"
      using pre_lt b by (auto simp: filter_empty_conv dest!: set_zip_leftD)
    have second: "map snd (filter (\<lambda>p. fst p = b) (zip (replicate n m) (drop (sum_list ns) src)))
        = drop (sum_list ns) src"
    proof -
      have "filter (\<lambda>p. fst p = b) (zip (replicate n m) (drop (sum_list ns) src))
          = zip (replicate n m) (drop (sum_list ns) src)"
        using b by (auto simp: filter_id_conv dest!: set_zip_leftD)
      then show ?thesis using lsrc by (simp add: map_snd_zip)
    qed
    have bl: "b = length ns" using b by (simp add: m_def)
    show ?thesis
      unfolding split first second using lsrc bl by (simp add: nth_append)
  qed
qed

lemma length_concat_replicate:
  "length (concat (map2 replicate ns [0..<length ns])) = sum_list ns"
  by (induction ns rule: rev_induct) simp_all

lemma set_concat_replicate:
  "i \<in> set (concat (map2 replicate ns [0..<length ns])) \<Longrightarrow> i < length ns"
  by (auto dest!: set_zip_rightD)

lemma user_items_map: "user_items N_U (map f xs) b = map f (user_items N_U xs b)"
  by (simp add: user_items_def take_map drop_map)

lemma those_map_gather:
  assumes "\<forall>row \<in> set negs. \<forall>i \<in> set row. in_range (length tbl) i"
  shows "those (map (gather tbl) negs)
       = Some (map (map (\<lambda>i. tbl ! wrap_index (length tbl) i)) negs)"
  by (rule those_map_Some) (use assms in \<open>simp add: gather_Some\<close>)

lemma p_sum_rows:
  fixes Pm Qm :: "'a::{plus,zero} matrix"
  assumes P: "has_shape ni d Pm" and Q: "has_shape ni d Qm"
    and lens: "length N_U = length I" "sum_list N_U = length I_U"
    and rI: "\<forall>i \<in> set I. in_range ni i" and rIU: "\<forall>i \<in> set I_U. in_range ni i"
  shows "scatter_add_rows (map (map (\<lambda>_. 0)) (map (\<lambda>i. Qm ! wrap_index (length Qm) i) I))
           (concat (map2 replicate N_U [0..<length I]))
           (map (\<lambda>i. Pm ! wrap_index (length Pm) i) I_U)
       = Some (map (\<lambda>b. emb_sum Pm d (user_items N_U I_U b)) [0..<length I])"
proof -
  define zeros where "zeros = map (map (\<lambda>_. 0::'a)) (map (\<lambda>i. Qm ! wrap_index (length Qm) i) I)"
  define U_idx where "U_idx = concat (map2 replicate N_U [0..<length N_U])"
  define p where "p = map (\<lambda>i. Pm ! wrap_index (length Pm) i) I_U"
  have lP: "length Pm = ni" and lQ: "length Qm = ni"
    using P Q by (simp_all add: has_shape_def)
  have zrow: "zeros ! b = replicate d 0" if "b < length I" for b
  proof -
    have "wrap_index ni (I ! b) < ni"
      using rI that py_index_in_range[of ni "I ! b"] by simp
    then have "length (Qm ! wrap_index ni (I ! b)) = d"
      using Q by (rule has_shape_nth[rotated])
    then show ?thesis
      using that by (simp add: zeros_def lQ map_replicate_const)
  qed
  have lz: "length zeros = length I" by (simp add: zeros_def)
  have lidx: "length U_idx = length p"
    unfolding U_idx_def p_def length_concat_replicate by (simp add: lens)
  have bidx: "\<forall>i \<in> set U_idx. i < length zeros"
    unfolding U_idx_def lz using set_concat_replicate[of _ N_U] lens(1) by auto
  obtain out where out: "scatter_add_rows zeros U_idx p = Some out"
    using scatter_add_rows_Some[OF lidx bidx] by blast
  have lo: "length out = length I"
    using scatter_add_rows_nth[OF out] lz by simp
  have "out ! b = emb_sum Pm d (user_items N_U I_U b)" if b: "b < length I" for b
  proof -
    have "out ! b = foldl (map2 (+)) (zeros ! b)
        (map snd (filter (\<lambda>p. fst p = b) (zip U_idx p)))"
      using scatter_add_rows_nth[OF out] b lz by simp
    also have "map snd (filter (\<lambda>p. fst p = b) (zip U_idx p)) = user_items N_U p b"
      unfolding U_idx_def user_items_def
      using b lens by (intro filter_zip_replicate_segments) (simp_all add: p_def)
    also have "foldl (map2 (+)) (zeros ! b) (user_items N_U p b)
        = emb_sum Pm d (user_items N_U I_U b)"
      by (simp add: emb_sum_def p_def user_items_map zrow[OF b])
    finally show ?thesis .
  qed
  then have "out = map (\<lambda>b. emb_sum Pm d (user_items N_U I_U b)) [0..<length I]"
    using lo by (intro nth_equalityI) simp_all
  with out show ?thesis
    by (simp add: zeros_def U_idx_def p_def lens)
qed

text \<open>
  Claim C1. Let the two embedding tables have one row per item and rows of one length
  \<open>d\<close>, let the indices be in range, let there be one user and one count per batch entry
  and let the counts add up to the length of \<open>I_U\<close>; let \<open>I_neg\<close>, when given, be a tensor
  with one row per batch entry and at least one column, for a batch that is not empty.
  Then \<open>forward\<close> returns, and for batch entry \<open>b\<close> the rating of item \<open>i\<close> is
  \<open>b_u[U] + b_i[i] + (p_ctx . Q(i)) / norm\<close>, where \<open>p_ctx\<close> is the sum of the
  \<open>P\<close>-embeddings of the user's interacted items, minus \<open>P(I)\<close> when training, and \<open>norm\<close>
  is \<open>N_U ** alpha\<close> when testing and \<open>max (N_U - 1) 1 ** alpha\<close> when training. This is
  the rating of the target item \<open>I\<close> and of every negative item, with the same \<open>p_ctx\<close> and
  \<open>norm\<close>. The arithmetic is arbitrary, so a quotient by a zero norm is whatever the
  arithmetic makes it (NaN or an infinity in floating point).
\<close>

theorem FISMrating_forward_formula:
  fixes m :: "('a::{plus,minus,times,inverse,zero,one,ord}, 'e) FISMrating"
    and to_float :: "nat \<Rightarrow> 'a" and pow :: "'a \<Rightarrow> 'e \<Rightarrow> 'a"
    and I U I_U :: "int list" and N_U :: "nat list" and I_neg :: "int list list option"
    and test :: bool and d ni n_negs :: nat
  defines "emb \<equiv> \<lambda>T i. T ! wrap_index (length T) i"
  defines "bias \<equiv> \<lambda>v i. v ! wrap_index (length v) i"
  defines "norm_of \<equiv> \<lambda>b. if test then pow (to_float (N_U ! b)) (alpha m)
                           else pow (max (to_float (N_U ! b) - 1) 1) (alpha m)"
  defines "p_ctx \<equiv> \<lambda>b. if test then emb_sum (P m) d (user_items N_U I_U b)
                         else map2 (-) (emb_sum (P m) d (user_items N_U I_U b)) (emb (P m) (I ! b))"
  defines "rating \<equiv> \<lambda>b i. bias (b_u m) (U ! b) + bias (b_i m) i
                             + dot (p_ctx b) (emb (Q m) i) / norm_of b"
  assumes P: "has_shape ni d (P m)" and Q: "has_shape ni d (Q m)"
    and bi: "length (b_i m) = ni"
    and lens: "length U = length I" "length N_U = length I" "sum_list N_U = length I_U"
    and rI: "\<forall>i \<in> set I. in_range ni i"
    and rIU: "\<forall>i \<in> set I_U. in_range ni i"
    and rU: "\<forall>u \<in> set U. in_range (length (b_u m)) u"
    and rneg: "\<forall>negs. I_neg = Some negs \<longrightarrow>
                 I \<noteq> [] \<and> 0 < n_negs \<and> has_shape (length I) n_negs negs
                 \<and> (\<forall>row \<in> set negs. \<forall>i \<in> set row. in_range ni i)"
  shows "FISMrating_forward to_float pow m I U I_neg I_U N_U test
       = Some (map (\<lambda>b. rating b (I ! b)) [0..<length I],
               map_option (\<lambda>negs. map (\<lambda>b. map (rating b) (negs ! b)) [0..<length I]) I_neg)"
proof -
  have lP: "length (P m) = ni" and lQ: "length (Q m) = ni"
    using P Q by (simp_all add: has_shape_def)
  define B where "B = length I"
  define psum where "psum = map (\<lambda>b. emb_sum (P m) d (user_items N_U I_U b)) [0..<B]"
  define pself where "pself = (if test then [] else map (\<lambda>i. P m ! wrap_index ni i) I)"
  define pctx where "pctx = (if test then psum else map2 (map2 (-)) psum pself)"
  define nrm where "nrm = (if test then map (\<lambda>n. pow (to_float n) (alpha m)) N_U
                  else map (\<lambda>n. pow (max (to_float n - 1) 1) (alpha m)) N_U)"
  have g1: "arange_repeat_interleave B N_U = Some (concat (map2 replicate N_U [0..<B]))"
    by (simp add: arange_repeat_interleave_def lens B_def)
  have g2: "gather (Q m) I = Some (map (\<lambda>i. Q m ! wrap_index ni i) I)"
    using gather_Some[of I "Q m"] rI by (simp add: lQ)
  have g3: "gather (P m) I_U = Some (map (\<lambda>i. P m ! wrap_index ni i) I_U)"
    using gather_Some[of I_U "P m"] rIU by (simp add: lP)
  have g4: "(if test then Some [] else gather (P m) I) = Some pself"
    using gather_Some[of I "P m"] rI by (simp add: lP pself_def)
  have g5: "scatter_add_rows (map (map (\<lambda>_. 0)) (map (\<lambda>i. Q m ! wrap_index ni i) I))
           (concat (map2 replicate N_U [0..<B]))
           (map (\<lambda>i. P m ! wrap_index ni i) I_U) = Some psum"
    using p_sum_rows[OF P Q lens(2,3) rI rIU] by (simp add: lP lQ B_def psum_def)
  have g6: "gather (b_u m) U = Some (map (\<lambda>u. b_u m ! wrap_index (length (b_u m)) u) U)"
    using gather_Some[of U "b_u m"] rU by simp
  have g7: "gather (b_i m) I = Some (map (\<lambda>i. b_i m ! wrap_index ni i) I)"
    using gather_Some[of I "b_i m"] rI by (simp add: bi)
  have ctx: "pctx ! b = p_ctx b" if "b < B" for b
    using that by (simp add: pctx_def psum_def pself_def p_ctx_def emb_def lP B_def)
  have nb: "nrm ! b = norm_of b" if "b < B" for b
    using that lens by (simp add: nrm_def norm_of_def B_def)
  have score: "map (\<lambda>u. b_u m ! wrap_index (length (b_u m)) u) U ! b
        + map (\<lambda>i. b_i m ! wrap_index ni i) I ! b
        + dot (pctx ! b) (map (\<lambda>i. Q m ! wrap_index ni i) I ! b) / nrm ! b
      = rating b (I ! b)" if "b < B" for b
    using that lens by (simp add: rating_def emb_def bias_def ctx nb bi lQ B_def)
  have r: "map (\<lambda>b. map (\<lambda>u. b_u m ! wrap_index (length (b_u m)) u) U ! b
        + map (\<lambda>i. b_i m ! wrap_index ni i) I ! b
        + dot (pctx ! b) (map (\<lambda>i. Q m ! wrap_index ni i) I ! b) / nrm ! b) [0..<B]
      = map (\<lambda>b. rating b (I ! b)) [0..<B]"
    by (rule map_cong) (simp_all add: score)
  show ?thesis
  proof (cases I_neg)
    case None
    show ?thesis
      unfolding FISMrating_forward_def Let_def
      by (simp only: g1 g2 g3 g4 g5 g6 g7 bind.bind_lunit B_def[symmetric] pctx_def[symmetric]
           nrm_def[symmetric] r lens None option.case option.map simp_thms if_False)
  next
    case (Some negs)
    with rneg have ne: "I \<noteq> []" and nn: "0 < n_negs" and sh: "has_shape B n_negs negs"
      and rn: "\<forall>row \<in> set negs. \<forall>i \<in> set row. in_range ni i"
      by (simp_all add: B_def)
    have ln: "length negs = B" using sh by (simp add: has_shape_def)
    have Bp: "0 < B" using ne by (simp add: B_def)
    have nne: "negs \<noteq> []" using ln Bp by auto
    have rowlen: "length (negs ! b) = n_negs" if "b < B" for b
      using sh that by (rule has_shape_nth)
    have n0: "length (negs ! 0) = n_negs" using rowlen[OF Bp] .
    have n1: "those (map (gather (Q m)) negs)
        = Some (map (map (\<lambda>i. Q m ! wrap_index ni i)) negs)"
      using those_map_gather[of negs "Q m"] rn by (simp add: lQ)
    have n2: "those (map (gather (b_i m)) negs)
        = Some (map (map (\<lambda>i. b_i m ! wrap_index ni i)) negs)"
      using those_map_gather[of negs "b_i m"] rn by (simp add: bi)
    have nscore: "map (\<lambda>u. b_u m ! wrap_index (length (b_u m)) u) U ! b
          + map (map (\<lambda>i. b_i m ! wrap_index ni i)) negs ! b ! j
          + dot (pctx ! b) (map (map (\<lambda>i. Q m ! wrap_index ni i)) negs ! b ! j) / nrm ! b
        = rating b (negs ! b ! j)"
      if "b < B" "j < n_negs" for b j
      using that lens ln rowlen[OF that(1)]
      by (simp add: rating_def emb_def bias_def ctx nb bi lQ B_def)
    have rneg_eq: "map (\<lambda>b. map (\<lambda>j. map (\<lambda>u. b_u m ! wrap_index (length (b_u m)) u) U ! b
          + map (map (\<lambda>i. b_i m ! wrap_index ni i)) negs ! b ! j
          + dot (pctx ! b) (map (map (\<lambda>i. Q m ! wrap_index ni i)) negs ! b ! j) / nrm ! b)
            [0..<n_negs]) [0..<B]
        = map (\<lambda>b. map (rating b) (negs ! b)) [0..<B]"
    proof (rule map_cong[OF refl])
      fix b assume "b \<in> set [0..<B]"
      then have b: "b < B" by simp
      show "map (\<lambda>j. map (\<lambda>u. b_u m ! wrap_index (length (b_u m)) u) U ! b
          + map (map (\<lambda>i. b_i m ! wrap_index ni i)) negs ! b ! j
          + dot (pctx ! b) (map (map (\<lambda>i. Q m ! wrap_index ni i)) negs ! b ! j) / nrm ! b)
            [0..<n_negs]
        = map (rating b) (negs ! b)"
        by (rule nth_equalityI) (simp_all add: nscore[OF b] rowlen[OF b])
    qed
    have guard: "(\<not> has_shape B n_negs negs \<or> n_negs = 0) = False"
      using sh nn by simp
    show ?thesis
      unfolding FISMrating_forward_def Let_def
      by (simp only: g1 g2 g3 g4 g5 g6 g7 n0 n1 n2 guard nne bind.bind_lunit B_def[symmetric]
           pctx_def[symmetric] nrm_def[symmetric] r rneg_eq lens ln Some option.case
           option.map simp_thms if_False)
  qed
qed

text \<open>
  A model with four items and two users, in the example arithmetic. In test mode with
  two negative items per entry the users have 2 and 4 interacted items; in training
  mode they have 3 each, so that both norms are \<open>max (3 - 1) 1 = 2\<close>.
\<close>

theorem FISMrating_forward_formula_witness:
  "FISMrating_forward fval_of_nat fval_pow
     \<lparr>P = [[Num 1, Num 0], [Num 0, Num 1], [Num 1, Num 1], [Num 2, Num 3]],
      Q = [[Num 1, Num 2], [Num 3, Num 4], [Num 5, Num 6], [Num 7, Num 8]],
      b_u = [Num 10, Num 20], b_i = [Num 1, Num 2, Num 3, Num 4], alpha = 1\<rparr>
     [0, 3] [0, 1] (Some [[1, 2], [0, 1]]) [0, 1, 0, 1, 2, 3] [2, 4] True
   = Some ([Num (25 / 2), Num 41],
           Some [[Num (31 / 2), Num (37 / 2)], [Num (49 / 2), Num 30]])
   \<and> FISMrating_forward fval_of_nat fval_pow
     \<lparr>P = [[Num 1, Num 0], [Num 0, Num 1], [Num 1, Num 1], [Num 2, Num 3]],
      Q = [[Num 1, Num 2], [Num 3, Num 4], [Num 5, Num 6], [Num 7, Num 8]],
      b_u = [Num 10, Num 20], b_i = [Num 1, Num 2, Num 3, Num 4], alpha = 1\<rparr>
     [0, 3] [0, 1] None [0, 1, 2, 3, 2, 1] [3, 3] False
   = Some ([Num (27 / 2), Num (71 / 2)], None)"
proof -
  define m :: "(fval, nat) FISMrating" where
    "m = \<lparr>P = [[Num 1, Num 0], [Num 0, Num 1], [Num 1, Num 1], [Num 2, Num 3]],
      Q = [[Num 1, Num 2], [Num 3, Num 4], [Num 5, Num 6], [Num 7, Num 8]],
      b_u = [Num 10, Num 20], b_i = [Num 1, Num 2, Num 3, Num 4], alpha = 1\<rparr>"
  have h1: "has_shape 4 2 (P m)" and h2: "has_shape 4 2 (Q m)" and h3: "length (b_i m) = 4"
    by (simp_all add: m_def has_shape_def)
  have h4: "length [0, 1::int] = length [0, 3::int]"
    and h5: "length [2, 4::nat] = length [0, 3::int]"
    and h6: "sum_list [2, 4::nat] = length [0, 1, 0, 1, 2, 3::int]"
    and h5': "length [3, 3::nat] = length [0, 3::int]"
    and h6': "sum_list [3, 3::nat] = length [0, 1, 2, 3, 2, 1::int]"
    by simp_all
  have h7: "\<forall>i \<in> set [0, 3::int]. in_range 4 i"
    and h8: "\<forall>i \<in> set [0, 1, 0, 1, 2, 3::int]. in_range 4 i"
    and h8': "\<forall>i \<in> set [0, 1, 2, 3, 2, 1::int]. in_range 4 i"
    and h9: "\<forall>u \<in> set [0, 1::int]. in_range (length (b_u m)) u"
    by (simp_all add: in_range_def m_def)
  have h10: "\<forall>negs. Some [[1, 2], [0, 1::int]] = Some negs \<longrightarrow>
       [0, 3::int] \<noteq> [] \<and> 0 < (2::nat) \<and> has_shape (length [0, 3::int]) 2 negs
       \<and> (\<forall>row \<in> set negs. \<forall>i \<in> set row. in_range 4 i)"
    by (simp add: in_range_def has_shape_def)
  have h10': "\<forall>negs. (None :: int list list option) = Some negs \<longrightarrow>
       [0, 3::int] \<noteq> [] \<and> 0 < (2::nat) \<and> has_shape (length [0, 3::int]) 2 negs
       \<and> (\<forall>row \<in> set negs. \<forall>i \<in> set row. in_range 4 i)"
    by simp
  have a: "FISMrating_forward fval_of_nat fval_pow m
       [0, 3] [0, 1] (Some [[1, 2], [0, 1]]) [0, 1, 0, 1, 2, 3] [2, 4] True
   = Some ([Num (25 / 2), Num 41],
           Some [[Num (31 / 2), Num (37 / 2)], [Num (49 / 2), Num 30]])"
    by (subst FISMrating_forward_formula [OF h1 h2 h3 h4 h5 h6 h7 h8 h9 h10],
        unfold m_def, code_simp)
  have b: "FISMrating_forward fval_of_nat fval_pow m
       [0, 3] [0, 1] None [0, 1, 2, 3, 2, 1] [3, 3] False
   = Some ([Num (27 / 2), Num (71 / 2)], None)"
    by (subst FISMrating_forward_formula [OF h1 h2 h3 h4 h5' h6' h7 h8' h9 h10'],
        unfold m_def, code_simp)
  from a b show ?thesis unfolding m_def by (rule conjI)
qed

text \<open>
  Where \<open>forward\<close> raises on account of \<open>I_neg\<close>: an empty batch, no column, or rows that
  make no tensor.
\<close>

lemma FISMrating_forward_raises:
  assumes "negs = [] \<or> length (negs ! 0) = 0
             \<or> \<not> has_shape (length I) (length (negs ! 0)) negs"
  shows "FISMrating_forward to_float pow m I U (Some negs) I_U N_U test = None"
  using assms
  by (auto simp: FISMrating_forward_def Let_def split: bind_splits)

lemma reshape_rows_singleton: "reshape_rows 1 xs = Some (map (\<lambda>x. [x]) xs)"
proof -
  have one: "take 1 (drop i xs) = [xs ! i]" if "i < length xs" for i
    using that by (simp flip: Cons_nth_drop_Suc)
  have "map (\<lambda>i. take 1 (drop i xs)) [0..<length xs] = map (\<lambda>x. [x]) xs"
    by (rule nth_equalityI) (simp_all add: one del: One_nat_def)
  then show ?thesis by (simp add: reshape_rows_def)
qed

lemma take_drop_concat:
  "\<forall>row \<in> set rows. length row = n \<Longrightarrow> i < length rows
     \<Longrightarrow> take n (drop (i * n) (concat rows)) = rows ! i"
proof (induction rows arbitrary: i)
  case Nil
  then show ?case by simp
next
  case (Cons row rows)
  show ?case
  proof (cases i)
    case 0
    with Cons.prems show ?thesis by simp
  next
    case (Suc i')
    with Cons.prems have "take n (drop (i' * n) (concat rows)) = rows ! i'"
      by (intro Cons.IH) simp_all
    with Cons.prems Suc show ?thesis by simp
  qed
qed

lemma length_concat_rows:
  "\<forall>row \<in> set rows. length row = n \<Longrightarrow> length (concat rows) = length rows * n"
  by (induction rows) simp_all

lemma reshape_rows_concat:
  assumes "0 < n" "\<forall>row \<in> set rows. length row = n"
  shows "reshape_rows n (concat rows) = Some rows"
proof -
  have l: "length (concat rows) = length rows * n"
    using assms(2) by (rule length_concat_rows)
  have "map (\<lambda>i. take n (drop (i * n) (concat rows))) [0..<length rows] = rows"
    by (rule nth_equalityI) (simp_all add: take_drop_concat[OF assms(2)])
  then show ?thesis using assms(1) by (simp add: reshape_rows_def l)
qed

lemma FISMrating_forward_shape:
  assumes "FISMrating_forward to_float pow m I U (Some negs) I_U N_U test = Some (r, x)"
  shows "length r = length I \<and> length U = length I \<and> I \<noteq> []
     \<and> (\<exists>rn. x = Some rn \<and> length rn = length I
          \<and> (\<forall>b < length I. length (rn ! b) = length (negs ! b)))"
  using assms
  by (auto simp: FISMrating_forward_def Let_def has_shape_def list_all_length
      split: bind_splits if_splits)

lemma gather_rows:
  "gather tbl idx = Some rows \<Longrightarrow> length rows = length idx \<and> set rows \<subseteq> set tbl"
proof -
  assume a: "gather tbl idx = Some rows"
  from those_eq_Some_map[OF a[unfolded gather_def]]
  have l: "length rows = length idx"
    and e: "\<forall>i < length idx. map_option ((!) tbl) (py_index (length tbl) (idx ! i)) = Some (rows ! i)"
    by simp_all
  have "rows ! i \<in> set tbl" if "i < length idx" for i
  proof -
    from e that obtain z where z: "py_index (length tbl) (idx ! i) = Some z" "tbl ! z = rows ! i"
      by auto
    from py_index_lt[OF z(1)] have "tbl ! z \<in> set tbl" by (rule nth_mem)
    with z(2) show ?thesis by simp
  qed
  then have "set rows \<subseteq> set tbl"
    using l by (auto simp: in_set_conv_nth)
  with l show ?thesis by simp
qed

text \<open>
  Claim C3. For a list of evaluated users with \<open>n > 0\<close> negative items each, where \<open>r\<close> and
  \<open>rn\<close> are the ratings the model estimates (in test mode) for the true items and for the
  users' negative items, \<open>RecEval\<close> returns the mean over the evaluated users of the
  indicator that at most \<open>k\<close> of the user's negative items have a rating greater than or
  equal to the rating of the true item. The comparison is that of the arithmetic: a
  rating that is NaN is greater than or equal to nothing, and nothing is greater than or
  equal to it.
\<close>

theorem RecEval_hits:
  fixes m :: "('a::{plus,minus,times,inverse,zero,one,ord}, 'e) FISMrating"
  assumes neg: "gather neg_eval users_eval = Some negs"
    and nb: "gather user_item_spm users_eval = Some nb"
    and fwd: "FISMrating_forward to_float pow m items_eval users_eval (Some negs) (concat nb)
                (map length nb) True = Some (r, Some rn)"
    and shape: "\<forall>row \<in> set neg_eval. length row = n"
    and n: "0 < n"
  shows "RecEval to_float pow m user_item_spm k users_eval items_eval neg_eval
       = Some (real (card {b. b < length users_eval
                               \<and> int (card {j. j < n \<and> rn ! b ! j \<ge> r ! b}) \<le> k})
               / real (length users_eval))"
proof -
  define B where "B = length users_eval"
  from FISMrating_forward_shape[OF fwd]
  have lr: "length r = B" and lrn: "length rn = B" and lu: "length items_eval = B"
    and ine: "items_eval \<noteq> []"
    and rows: "\<forall>b < B. length (rn ! b) = length (negs ! b)"
    by (simp_all add: B_def)
  have B: "0 < B" using ine lu by auto
  have rne: "r \<noteq> []" using lr B by auto
  from gather_rows[OF neg] have lneg: "length negs = B" and sub: "set negs \<subseteq> set neg_eval"
    by (simp_all add: B_def)
  have rown: "\<forall>row \<in> set rn. length row = n"
  proof
    fix row assume "row \<in> set rn"
    then obtain b where b: "b < B" "row = rn ! b"
      using lrn by (auto simp: in_set_conv_nth)
    have "negs ! b \<in> set neg_eval" using sub lneg b(1) by auto
    then show "length row = n" using rows b shape by simp
  qed
  have e1: "est_rating to_float pow m items_eval users_eval (Some negs) (concat nb) (map length nb)
      = Some (map (\<lambda>x. [x]) r, map (\<lambda>x. [x]) (concat rn))"
    using rne B by (simp add: est_rating_def fwd lr lrn reshape_rows_singleton[unfolded One_nat_def])
  have lflat: "length (concat rn) = B * n"
    using length_concat_rows[OF rown] lrn by simp
  have e2: "reshape_rows (length (map (\<lambda>x. [x]) (concat rn)) div length (map (\<lambda>x. [x]) r))
       (concat rn) = Some rn"
    using B by (simp add: lflat lr reshape_rows_concat[OF n rown])
  have lm: "length rn = length (map (\<lambda>x. [x]) r)"
    by (simp add: lr lrn)
  define hits where "hits = map2 (\<lambda>row rb. int (length (filter (\<lambda>x. x \<ge> rb ! 0) row)) \<le> k)
      rn (map (\<lambda>x. [x]) r)"
  have lh: "length hits = B" by (simp add: hits_def lr lrn)
  have hit: "hits ! b = (int (card {j. j < n \<and> rn ! b ! j \<ge> r ! b}) \<le> k)" if "b < B" for b
  proof -
    have "length (rn ! b) = n" using rown that lrn by simp
    then have "length (filter (\<lambda>x. x \<ge> r ! b) (rn ! b)) = card {j. j < n \<and> rn ! b ! j \<ge> r ! b}"
      by (simp add: length_filter_conv_card)
    then show ?thesis using that by (simp add: hits_def lr lrn)
  qed
  have "RecEval to_float pow m user_item_spm k users_eval items_eval neg_eval = np_mean hits"
    unfolding RecEval_def Let_def
    using rne B by (simp add: neg nb e1 e2 lm hits_def del: length_map length_concat)
  also have "\<dots> = Some (real (card {b. b < length hits \<and> hits ! b}) / real (length hits))"
    using B lh by (intro np_mean_card) auto
  also have "{b. b < length hits \<and> hits ! b}
      = {b. b < B \<and> int (card {j. j < n \<and> rn ! b ! j \<ge> r ! b}) \<le> k}"
    using hit lh by auto
  finally show ?thesis by (simp add: lh B_def)
qed

text \<open>
  Two users with 2 and 4 interacted items and two negative items each, \<open>k = 1\<close>: both
  negative items of the first user are rated above the true item, none of the second
  user's is.
\<close>

theorem RecEval_hits_witness:
  "RecEval fval_of_nat fval_pow
     \<lparr>P = [[Num 1, Num 0], [Num 0, Num 1], [Num 1, Num 1], [Num 2, Num 3]],
      Q = [[Num 1, Num 2], [Num 3, Num 4], [Num 5, Num 6], [Num 7, Num 8]],
      b_u = [Num 10, Num 20], b_i = [Num 1, Num 2, Num 3, Num 4], alpha = 1\<rparr>
     [[0, 1], [0, 1, 2, 3]] 1 [0, 1] [0, 3] [[1, 2], [0, 1]] = Some (1 / 2)
   \<and> card {b. b < length [0, 1::int]
              \<and> int (card {j. j < (2::nat)
                            \<and> [[Num (31 / 2), Num (37 / 2)], [Num (49 / 2), Num 30]] ! b ! j
                                \<ge> [Num (25 / 2), Num 41] ! b})
                  \<le> 1} = 1"
proof -
  define m :: "(fval, nat) FISMrating" where
    "m = \<lparr>P = [[Num 1, Num 0], [Num 0, Num 1], [Num 1, Num 1], [Num 2, Num 3]],
      Q = [[Num 1, Num 2], [Num 3, Num 4], [Num 5, Num 6], [Num 7, Num 8]],
      b_u = [Num 10, Num 20], b_i = [Num 1, Num 2, Num 3, Num 4], alpha = 1\<rparr>"
  define X where "X = {b. b < length [0, 1::int]
              \<and> int (card {j. j < (2::nat)
                            \<and> [[Num (31 / 2), Num (37 / 2)], [Num (49 / 2), Num 30]] ! b ! j
                                \<ge> [Num (25 / 2), Num 41] ! b})
                  \<le> 1}"
  have h1: "gather [[1, 2], [0, 1::int]] [0, 1] = Some [[1, 2], [0, 1]]"
    by (simp add: gather_def py_index_def)
  have h2: "gather [[0, 1], [0, 1, 2, 3::int]] [0, 1] = Some [[0, 1], [0, 1, 2, 3]]"
    by (simp add: gather_def py_index_def)
  have h3: "FISMrating_forward fval_of_nat fval_pow m [0, 3] [0, 1] (Some [[1, 2], [0, 1]])
      (concat [[0, 1], [0, 1, 2, 3]]) (map length [[0, 1], [0, 1, 2, 3::int]]) True
      = Some ([Num (25 / 2), Num 41],
              Some [[Num (31 / 2), Num (37 / 2)], [Num (49 / 2), Num 30]])"
    unfolding m_def by code_simp
  have h5: "\<forall>row \<in> set [[1, 2], [0, 1::int]]. length row = 2" by simp
  have ev: "RecEval fval_of_nat fval_pow m [[0, 1], [0, 1, 2, 3]] 1 [0, 1] [0, 3] [[1, 2], [0, 1]]
      = Some (1 / 2)"
    unfolding m_def by code_simp
  have "RecEval fval_of_nat fval_pow m [[0, 1], [0, 1, 2, 3]] 1 [0, 1] [0, 3] [[1, 2], [0, 1]]
      = Some (real (card X) / real (length [0, 1::int]))"
    unfolding X_def using RecEval_hits [OF h1 h2 h3 h5, of 1] by simp
  with ev have "card X = 1" by simp
  with ev show ?thesis unfolding X_def m_def by (rule conjI)
qed

text \<open>
  A user without any interacted item has the norm \<open>0 ** 1 = 0\<close> and the context sum zero,
  so all ratings of that user are \<open>0 / 0\<close>: NaN in floating point. No negative item is
  then rated greater than or equal to the true item, and the user counts as a hit
  whatever \<open>k\<close> is. Here the first user is no hit, the second has no interacted item.
\<close>

lemma RecEval_user_without_items:
  "RecEval fval_of_nat fval_pow
     \<lparr>P = [[Num 1, Num 0], [Num 0, Num 1], [Num 1, Num 1], [Num 2, Num 3]],
      Q = [[Num 1, Num 2], [Num 3, Num 4], [Num 5, Num 6], [Num 7, Num 8]],
      b_u = [Num 10, Num 20], b_i = [Num 1, Num 2, Num 3, Num 4], alpha = 1\<rparr>
     [[0, 1, 2], []] 0 [0, 1] [0, 0] [[3, 3], [1, 2]] = Some (1 / 2)
   \<and> FISMrating_forward fval_of_nat fval_pow
     \<lparr>P = [[Num 1, Num 0], [Num 0, Num 1], [Num 1, Num 1], [Num 2, Num 3]],
      Q = [[Num 1, Num 2], [Num 3, Num 4], [Num 5, Num 6], [Num 7, Num 8]],
      b_u = [Num 10, Num 20], b_i = [Num 1, Num 2, Num 3, Num 4], alpha = (1::nat)\<rparr>
     [0, 0] [0, 1] (Some [[3, 3], [1, 2]]) [0, 1, 2] [3, 0] True
     = Some ([Num 13, NaN], Some [[Num 24, Num 24], [NaN, NaN]])"
  by code_simp



















lemma split_from_tokens:
  "\<forall>c \<in> set cur. \<not> is_space c \<Longrightarrow> t \<in> set (split_from cur s) \<Longrightarrow> good_token t"
proof (induction s arbitrary: cur)
  case Nil
  then show ?case by (auto simp: good_token_def list_all_iff split: if_splits)
next
  case (Cons c cs)
  show ?case
  proof (cases "is_space c")
    case True
    with Cons.prems have "t = cur \<and> cur \<noteq> [] \<or> t \<in> set (split_from [] cs)"
      by (auto split: if_splits)
    then show ?thesis
      using Cons.IH[of "[]"] Cons.prems(1) by (auto simp: good_token_def list_all_iff)
  next
    case False
    with Cons.prems have "t \<in> set (split_from (cur @ [c]) cs)" by simp
    moreover have "\<forall>x \<in> set (cur @ [c]). \<not> is_space x" using Cons.prems(1) False by simp
    ultimately show ?thesis using Cons.IH by blast
  qed
qed

lemma split_ws_tokens: "t \<in> set (split_ws s) \<Longrightarrow> good_token t"
  unfolding split_ws_def by (rule split_from_tokens[of "[]"]) simp_all

lemma split_from_append:
  "\<forall>c \<in> set t. \<not> is_space c \<Longrightarrow> split_from cur (t @ s) = split_from (cur @ t) s"
  by (induction t arbitrary: cur) simp_all

lemma is_space_blank: "is_space (CHR '' '')"
  by (simp add: is_space_def)

lemma split_join:
  "\<forall>t \<in> set toks. good_token t \<Longrightarrow> split_ws (join_sp toks) = toks"
proof (induction toks rule: join_sp.induct)
  case 1
  show ?case by (simp add: split_ws_def)
next
  case (2 t)
  then have "split_from [] (t @ []) = split_from ([] @ t) []"
    by (intro split_from_append) (simp add: good_token_def list_all_iff)
  with 2 show ?case by (simp add: split_ws_def good_token_def list_all_iff)
next
  case (3 t t' ts)
  then have t: "t \<noteq> []" "\<forall>c \<in> set t. \<not> is_space c"
    and rest: "split_ws (join_sp (t' # ts)) = t' # ts"
    by (simp_all add: good_token_def list_all_iff)
  have "split_from [] (t @ CHR '' '' # join_sp (t' # ts))
      = split_from ([] @ t) (CHR '' '' # join_sp (t' # ts))"
    using t(2) by (rule split_from_append)
  also have "\<dots> = t # split_from [] (join_sp (t' # ts))"
    using t(1) by (simp add: is_space_blank)
  finally show ?case using rest by (simp add: split_ws_def)
qed

lemma those_map_None_iff:
  "(those (map f xs) = None) = (\<exists>x \<in> set xs. f x = None)"
  by (induction xs) (auto split: option.splits)

lemma those_map_the:
  "\<forall>x \<in> set xs. f x \<noteq> None \<Longrightarrow> those (map f xs) = Some (map (\<lambda>x. the (f x)) xs)"
  by (rule those_map_Some) auto

lemma split_ws_no_break_space:
  "split_ws (''recommend'' @ [CHR 0xA0] @ ''5'' @ [CHR 0x85] @ ''6'') = [''recommend'', ''5'', ''6'']"
  by code_simp

lemma read_lines_rows:
  assumes "read_lines file_lines cs ctxs preds = Some (rows, recs)"
    and "\<forall>r \<in> set ctxs. (\<forall>t \<in> set r. good_token t) \<and> int (length r) = cs"
  shows "\<forall>r \<in> set rows. (\<forall>t \<in> set r. good_token t) \<and> int (length r) = cs"
  using assms
proof (induction file_lines arbitrary: ctxs preds)
  case Nil
  then show ?case by simp
next
  case (Cons line rest)
  from Cons.prems(1) obtain s0 ss where strs: "split_ws line = s0 # ss"
    by (cases "split_ws line") (simp_all add: Let_def)
  show ?case
  proof (cases "startswith s0 ''row''")
    case True
    define ctx where "ctx = drop 2 (split_ws line)"
    from Cons.prems(1) strs True have len: "int (length ctx) = cs"
      and rec: "read_lines rest cs (ctxs @ [ctx]) preds = Some (rows, recs)"
      by (simp_all add: Let_def ctx_def split: if_splits)
    have "\<forall>t \<in> set ctx. good_token t"
      unfolding ctx_def by (auto dest!: in_set_dropD split_ws_tokens)
    with len Cons.prems(2)
    have inv: "\<forall>r \<in> set (ctxs @ [ctx]). (\<forall>t \<in> set r. good_token t) \<and> int (length r) = cs"
      by auto
    show ?thesis
      using Cons.IH[OF rec inv] .
  next
    case False
    show ?thesis
    proof (cases "startswith s0 ''recommend''")
      case R: True
      from Cons.prems(1) strs False R obtain pred where
        rec: "read_lines rest cs ctxs (preds @ [pred]) = Some (rows, recs)"
        by (auto simp: Let_def split: option.splits)
      show ?thesis
        using Cons.IH[OF rec Cons.prems(2)] .
    next
      case NR: False
      from Cons.prems(1) strs False NR have rec: "read_lines rest cs ctxs preds = Some (rows, recs)"
        by (simp add: Let_def)
      show ?thesis
        using Cons.IH[OF rec Cons.prems(2)] .
    qed
  qed
qed

lemma keys_dict_set: "set (map fst (dict_set d k v)) = insert k (set (map fst d))"
proof (induction d)
  case Nil
  show ?case by simp
next
  case (Cons p d)
  obtain k' v' where p: "p = (k', v')" by (cases p)
  show ?case
  proof (cases "k' = k")
    case True
    then show ?thesis by (simp add: p)
  next
    case False
    then show ?thesis using Cons.IH by (simp add: p insert_commute)
  qed
qed

lemma set_dict_set:
  assumes "distinct (map fst d)"
  shows "set (dict_set d k v) = insert (k, v) {p \<in> set d. fst p \<noteq> k}"
  using assms
proof (induction d)
  case Nil
  show ?case by simp
next
  case (Cons p d)
  obtain k' v' where p: "p = (k', v')" by (cases p)
  show ?case
  proof (cases "k' = k")
    case True
    with Cons.prems p have "k \<notin> fst ` set d" by simp
    then have nk: "\<forall>q \<in> set d. fst q \<noteq> k" by force
    have "{q \<in> set (p # d). fst q \<noteq> k} = set d"
    proof (rule set_eqI)
      fix q show "q \<in> {q \<in> set (p # d). fst q \<noteq> k} \<longleftrightarrow> q \<in> set d"
        using nk True by (cases "q = p") (force simp: p)+
    qed
    then show ?thesis using True by (simp add: p)
  next
    case False
    have IH: "set (dict_set d k v) = insert (k, v) {p \<in> set d. fst p \<noteq> k}"
      using Cons.prems by (intro Cons.IH) simp
    have "{q \<in> set (p # d). fst q \<noteq> k} = insert (k', v') {q \<in> set d. fst q \<noteq> k}"
      using False by (auto simp: p)
    then show ?thesis using False by (simp add: p IH insert_commute)
  qed
qed

lemma distinct_dict_set: "distinct (map fst d) \<Longrightarrow> distinct (map fst (dict_set d k v))"
proof (induction d)
  case Nil
  show ?case by simp
next
  case (Cons p d)
  obtain k' v' where p: "p = (k', v')" by (cases p)
  show ?case
  proof (cases "k' = k")
    case True
    with Cons.prems p show ?thesis by simp
  next
    case False
    have "k' \<notin> set (map fst d)" using Cons.prems p by simp
    then have "k' \<notin> set (map fst (dict_set d k v))"
      unfolding keys_dict_set using False by simp
    moreover have "distinct (map fst (dict_set d k v))"
      using Cons.prems by (intro Cons.IH) simp
    ultimately show ?thesis using False by (simp add: p)
  qed
qed

text \<open>What the loop \<open>ctx_preds[key] = pred\<close> leaves in the dictionary.\<close>

lemma build_ctx_preds_entries:
  defines "last_for \<equiv> \<lambda>pairs key v. \<exists>j < length pairs.
      join_sp (fst (pairs ! j)) = key \<and> snd (pairs ! j) = v
      \<and> (\<forall>j'. j < j' \<and> j' < length pairs \<longrightarrow> join_sp (fst (pairs ! j')) \<noteq> key)"
  shows "distinct (map fst (foldl (\<lambda>d (ctx, pred). dict_set d (join_sp ctx) pred) [] pairs))
    \<and> (\<forall>(key, v) \<in> set (foldl (\<lambda>d (ctx, pred). dict_set d (join_sp ctx) pred) [] pairs).
          last_for pairs key v)"
proof (induction pairs rule: rev_induct)
  case Nil
  show ?case by simp
next
  case (snoc p pairs)
  define d where "d = foldl (\<lambda>d (ctx, pred). dict_set d (join_sp ctx) pred) [] pairs"
  obtain c v where p: "p = (c, v)" by (cases p)
  have dist: "distinct (map fst d)" and ent: "\<forall>(key, v) \<in> set d. last_for pairs key v"
    using snoc.IH by (simp_all add: d_def)
  have step: "foldl (\<lambda>d (ctx, pred). dict_set d (join_sp ctx) pred) [] (pairs @ [p])
      = dict_set d (join_sp c) v"
    by (simp add: d_def p)
  have "last_for (pairs @ [p]) key w" if "(key, w) \<in> set (dict_set d (join_sp c) v)" for key w
  proof -
    from that consider "key = join_sp c" "w = v" | "(key, w) \<in> set d" "key \<noteq> join_sp c"
      by (auto simp: set_dict_set[OF dist])
    then show ?thesis
    proof cases
      case 1
      then show ?thesis
        unfolding last_for_def by (intro exI[of _ "length pairs"]) (auto simp: p)
    next
      case 2
      with ent obtain j where j: "j < length pairs" "join_sp (fst (pairs ! j)) = key"
        "snd (pairs ! j) = w"
        "\<forall>j'. j < j' \<and> j' < length pairs \<longrightarrow> join_sp (fst (pairs ! j')) \<noteq> key"
        unfolding last_for_def by auto
      show ?thesis
        unfolding last_for_def
      proof (intro exI[of _ j] conjI allI impI)
        show "j < length (pairs @ [p])" using j(1) by simp
        show "join_sp (fst ((pairs @ [p]) ! j)) = key" using j(1,2) by (simp add: nth_append)
        show "snd ((pairs @ [p]) ! j) = w" using j(1,3) by (simp add: nth_append)
        fix j' assume a: "j < j' \<and> j' < length (pairs @ [p])"
        show "join_sp (fst ((pairs @ [p]) ! j')) \<noteq> key"
        proof (cases "j' < length pairs")
          case True
          with a j(4) show ?thesis by (simp add: nth_append)
        next
          case False
          with a have "j' = length pairs" by simp
          with 2(2) show ?thesis by (simp add: p)
        qed
      qed
    qed
  qed
  then show ?case
    unfolding step using distinct_dict_set[OF dist] by auto
qed

lemma those_length: "those xs = Some ys \<Longrightarrow> length ys = length xs"
  using those_eq_Some_map[of id xs ys] by simp

text \<open>The first loop reads the file when every line passes, and appends what it reads.\<close>

lemma read_lines_result:
  "read_lines file_lines cs ctxs preds =
     (if list_all (\<lambda>line. split_ws line \<noteq> []) file_lines
         \<and> list_all (\<lambda>ctx. int (length ctx) = cs) (row_contexts file_lines)
         \<and> list_all (\<lambda>toks. ints_of toks \<noteq> None) (rec_numbers file_lines)
      then Some (ctxs @ row_contexts file_lines,
                 preds @ map (\<lambda>toks. the (ints_of toks)) (rec_numbers file_lines))
      else None)"
proof (induction file_lines arbitrary: ctxs preds)
  case Nil
  show ?case by (simp add: row_contexts_def rec_numbers_def)
next
  case (Cons line rest)
  show ?case
  proof (cases "split_ws line")
    case Nil
    then show ?thesis by simp
  next
    case (Cons s0 ss)
    note strs = Cons
    show ?thesis
    proof (cases "startswith s0 ''row''")
      case True
      then have r: "is_row_line line" "\<not> is_rec_line line"
        by (simp_all add: is_row_line_def is_rec_line_def strs)
      have rc: "row_contexts (line # rest) = drop 2 (split_ws line) # row_contexts rest"
        and rn: "rec_numbers (line # rest) = rec_numbers rest"
        using r by (simp_all add: row_contexts_def rec_numbers_def)
      show ?thesis
        unfolding rc rn
        by (simp add: strs True Let_def Cons.IH)
    next
      case False
      note nrow = False
      show ?thesis
      proof (cases "startswith s0 ''recommend''")
        case True
        then have r: "\<not> is_row_line line" "is_rec_line line"
          using nrow by (simp_all add: is_row_line_def is_rec_line_def strs)
        have rc: "row_contexts (line # rest) = row_contexts rest"
          and rn: "rec_numbers (line # rest) = drop 1 (split_ws line) # rec_numbers rest"
          using r by (simp_all add: row_contexts_def rec_numbers_def)
        show ?thesis
        proof (cases "ints_of (drop 1 (split_ws line))")
          case None
          then have "those (map py_int ss) = None" by (simp add: ints_of_def strs)
          then show ?thesis
            unfolding rc rn using None by (simp add: strs nrow True Let_def)
        next
          case (Some pred)
          then have "those (map py_int ss) = Some pred" by (simp add: ints_of_def strs)
          then show ?thesis
            unfolding rc rn using Some by (simp add: strs nrow True Let_def Cons.IH)
        qed
      next
        case False
        then have r: "\<not> is_row_line line" "\<not> is_rec_line line"
          using nrow by (simp_all add: is_row_line_def is_rec_line_def strs)
        have rc: "row_contexts (line # rest) = row_contexts rest"
          and rn: "rec_numbers (line # rest) = rec_numbers rest"
          using r by (simp_all add: row_contexts_def rec_numbers_def)
        show ?thesis
          unfolding rc rn by (simp add: strs nrow False Let_def Cons.IH)
      qed
    qed
  qed
qed

lemma row_contexts_tokens: "r \<in> set (row_contexts file_lines) \<Longrightarrow> \<forall>t \<in> set r. good_token t"
  by (auto simp: row_contexts_def dest!: in_set_dropD split_ws_tokens)

lemma keys_build_ctx_preds:
  "set (map fst (foldl (\<lambda>d (ctx, pred). dict_set d (join_sp ctx) pred) [] pairs))
     = (\<lambda>p. join_sp (fst p)) ` set pairs"
proof (induction pairs rule: rev_induct)
  case Nil
  show ?case by simp
next
  case (snoc p pairs)
  obtain c v where p: "p = (c, v)" by (cases p)
  show ?case
    using snoc.IH by (simp add: p keys_dict_set del: set_map)
qed

lemma map_fst_zip_take: "map fst (zip xs ys) = take (length ys) xs"
proof (induction xs arbitrary: ys)
  case Nil
  show ?case by simp
next
  case (Cons x xs)
  show ?case by (cases ys) (simp_all add: Cons.IH)
qed

text \<open>
  Claim C10, as amended. \<open>load_topk_pred\<close> returns exactly on the files it can read (no
  blank line, \<open>ctx_size\<close> context tokens on every row line, readable numbers on every
  recommend line and in the context of every row line that has a partner), and raises
  on all others. When it returns, the context and prediction lists have equal length;
  every row line of the file has a context of \<open>ctx_size\<close> entries; the returned contexts
  are the contexts of the row lines that have a partner, each once as it is written
  (as a list of tokens \<open>toks\<close>, of which the returned context is the reading as integers);
  and the prediction returned for a context is that of the last row line with this
  context among those that have a partner, the \<open>j\<close>-th row line being paired with the
  \<open>j\<close>-th recommend line.
\<close>

theorem load_topk_pred_result:
  fixes file_lines :: "string list" and ctx_size k :: int
  defines "rows \<equiv> row_contexts file_lines"
  defines "recs \<equiv> rec_numbers file_lines"
  defines "paired \<equiv> min (length rows) (length recs)"
  shows "(load_topk_pred file_lines ctx_size k \<noteq> None) = readable_file file_lines ctx_size
     \<and> (\<forall>ctxs preds. load_topk_pred file_lines ctx_size k = Some (ctxs, preds) \<longrightarrow>
           length ctxs = length preds
         \<and> list_all (\<lambda>ctx. int (length ctx) = ctx_size) rows
         \<and> (\<exists>toks. length toks = length ctxs \<and> distinct toks
               \<and> set toks = set (take paired rows)
               \<and> (\<forall>i < length ctxs.
                    ints_of (toks ! i) = Some (ctxs ! i)
                  \<and> (\<exists>j < paired. rows ! j = toks ! i \<and> ints_of (recs ! j) = Some (preds ! i)
                       \<and> (\<forall>j'. j < j' \<and> j' < paired \<longrightarrow> rows ! j' \<noteq> toks ! i)))))"
proof (cases "list_all (\<lambda>line. split_ws line \<noteq> []) file_lines
         \<and> list_all (\<lambda>ctx. int (length ctx) = ctx_size) rows
         \<and> list_all (\<lambda>toks. ints_of toks \<noteq> None) recs")
  case False
  then have rd: "read_lines file_lines ctx_size [] [] = None"
    by (simp add: read_lines_result rows_def recs_def)
  then have none: "load_topk_pred file_lines ctx_size k = None"
    by (simp add: load_topk_pred_def)
  have "\<not> readable_file file_lines ctx_size"
    using False by (auto simp: readable_file_def rows_def recs_def)
  with none show ?thesis by simp
next
  case True
  then have ok_rows: "list_all (\<lambda>ctx. int (length ctx) = ctx_size) rows"
    and ok_recs: "list_all (\<lambda>toks. ints_of toks \<noteq> None) recs"
    by simp_all
  define recs_i where "recs_i = map (\<lambda>toks. the (ints_of toks)) recs"
  have rd: "read_lines file_lines ctx_size [] [] = Some (rows, recs_i)"
    using True by (simp add: read_lines_result rows_def recs_def recs_i_def)
  define d where "d = build_ctx_preds rows recs_i"
  define pairs where "pairs = zip rows recs_i"
  define toks where "toks = map (\<lambda>(key, pred). split_ws key) d"
  define parse where "parse = those (map (\<lambda>(ctx_str, pred). those (map py_int (split_ws ctx_str))) d)"
  have load: "load_topk_pred file_lines ctx_size k
      = (case parse of None \<Rightarrow> None | Some ctxs' \<Rightarrow> Some (ctxs', map snd d))"
    by (simp add: load_topk_pred_def rd d_def parse_def Let_def split: option.splits)
  have lri: "length recs_i = length recs" by (simp add: recs_i_def)
  have lp: "length pairs = paired"
    by (simp add: pairs_def paired_def lri)
  have tk: "take paired rows = take (length recs) rows"
    by (simp add: paired_def min_def)
  have fstp: "map fst pairs = take paired rows"
    unfolding pairs_def tk by (simp add: map_fst_zip_take lri)
  have good: "\<forall>r \<in> set rows. (\<forall>t \<in> set r. good_token t) \<and> int (length r) = ctx_size"
    using ok_rows row_contexts_tokens[of _ file_lines] by (auto simp: rows_def list_all_iff)
  have sj: "split_ws (join_sp r) = r" if "r \<in> set rows" for r
    using good that by (intro split_join) blast
  have d_fold: "d = foldl (\<lambda>d (ctx, pred). dict_set d (join_sp ctx) pred) [] pairs"
    by (simp add: d_def build_ctx_preds_def pairs_def)
  have keys: "set (map fst d) = join_sp ` set (take paired rows)"
  proof -
    have "set (map fst d) = (\<lambda>p. join_sp (fst p)) ` set pairs"
      unfolding d_fold by (rule keys_build_ctx_preds)
    also have "\<dots> = join_sp ` set (map fst pairs)"
      by (simp add: image_image)
    finally show ?thesis by (simp only: fstp)
  qed
  have sub: "set (take paired rows) \<subseteq> set rows" by (rule set_take_subset)
  have toks_eq: "toks = map split_ws (map fst d)"
    by (simp add: toks_def case_prod_unfold)
  have stoks: "set toks = set (take paired rows)"
  proof -
    have "set toks = split_ws ` set (map fst d)"
      unfolding toks_eq by (rule set_map)
    also have "\<dots> = split_ws ` join_sp ` set (take paired rows)"
      by (simp only: keys)
    also have "\<dots> = (\<lambda>r. split_ws (join_sp r)) ` set (take paired rows)"
      by (simp add: image_image)
    also have "\<dots> = (\<lambda>r. r) ` set (take paired rows)"
      by (rule image_cong[OF refl]) (use sj sub in blast)
    finally show ?thesis by simp
  qed
  have parse_eq: "parse = those (map ints_of toks)"
    by (simp add: parse_def toks_def ints_of_def case_prod_unfold comp_def)
  have parse_iff: "(parse \<noteq> None) = list_all (\<lambda>ctx. ints_of ctx \<noteq> None) (take (length recs) rows)"
  proof -
    have "(parse \<noteq> None) = (\<forall>t \<in> set toks. ints_of t \<noteq> None)"
      unfolding parse_eq by (simp add: those_map_None_iff)
    also have "\<dots> = list_all (\<lambda>ctx. ints_of ctx \<noteq> None) (take (length recs) rows)"
      by (simp add: stoks tk list_all_iff)
    finally show ?thesis .
  qed
  have part1: "(load_topk_pred file_lines ctx_size k \<noteq> None) = readable_file file_lines ctx_size"
  proof -
    have "(load_topk_pred file_lines ctx_size k \<noteq> None) = (parse \<noteq> None)"
      unfolding load by (cases parse) simp_all
    also have "\<dots> = readable_file file_lines ctx_size"
      unfolding parse_iff using True by (simp add: readable_file_def rows_def recs_def)
    finally show ?thesis .
  qed
  have part2: "length ctxs = length preds
         \<and> list_all (\<lambda>ctx. int (length ctx) = ctx_size) rows
         \<and> (\<exists>toks. length toks = length ctxs \<and> distinct toks
               \<and> set toks = set (take paired rows)
               \<and> (\<forall>i < length ctxs.
                    ints_of (toks ! i) = Some (ctxs ! i)
                  \<and> (\<exists>j < paired. rows ! j = toks ! i \<and> ints_of (recs ! j) = Some (preds ! i)
                       \<and> (\<forall>j'. j < j' \<and> j' < paired \<longrightarrow> rows ! j' \<noteq> toks ! i))))"
    if ret: "load_topk_pred file_lines ctx_size k = Some (ctxs, preds)" for ctxs preds
  proof -
    from ret have pr: "parse = Some ctxs" and preds: "preds = map snd d"
      unfolding load by (simp_all split: option.splits)
    have dist: "distinct (map fst d)"
      and ent: "\<forall>(key, v) \<in> set d. \<exists>j < length pairs.
        join_sp (fst (pairs ! j)) = key \<and> snd (pairs ! j) = v
        \<and> (\<forall>j'. j < j' \<and> j' < length pairs \<longrightarrow> join_sp (fst (pairs ! j')) \<noteq> key)"
      unfolding d_fold using build_ctx_preds_entries[of pairs] by simp_all
    have lc: "length ctxs = length d"
      using those_length[OF pr[unfolded parse_def]] by simp
    have row_of: "\<exists>j < paired. rows ! j = split_ws key \<and> join_sp (rows ! j) = key
        \<and> recs_i ! j = v
        \<and> (\<forall>j'. j < j' \<and> j' < paired \<longrightarrow> rows ! j' \<noteq> rows ! j)"
      if "(key, v) \<in> set d" for key v
    proof -
      have "\<exists>j < length pairs. join_sp (fst (pairs ! j)) = key \<and> snd (pairs ! j) = v
        \<and> (\<forall>j'. j < j' \<and> j' < length pairs \<longrightarrow> join_sp (fst (pairs ! j')) \<noteq> key)"
        using bspec[OF ent that] by simp
      then obtain j where j: "j < length pairs" "join_sp (fst (pairs ! j)) = key"
        "snd (pairs ! j) = v"
        "\<forall>j'. j < j' \<and> j' < length pairs \<longrightarrow> join_sp (fst (pairs ! j')) \<noteq> key"
        by (elim exE conjE)
      have pj: "pairs ! j' = (rows ! j', recs_i ! j')" if "j' < length pairs" for j'
        using that by (simp add: pairs_def)
      have jl: "j < length rows" using j(1) lp by (simp add: paired_def)
      have rj: "rows ! j \<in> set rows" using jl by simp
      have key: "join_sp (rows ! j) = key" using j(1,2) pj by simp
      have sp: "rows ! j = split_ws key" using sj[OF rj] key by simp
      have later: "rows ! j' \<noteq> rows ! j" if "j < j' \<and> j' < paired" for j'
        using j(4) that pj key lp by auto
      have c1: "j < paired" using j(1) lp by simp
      have c4: "recs_i ! j = v" using j(1,3) pj by simp
      have c5: "\<forall>j'. j < j' \<and> j' < paired \<longrightarrow> rows ! j' \<noteq> rows ! j"
        using later by blast
      from c1 sp key c4 c5 show ?thesis by blast
    qed
    have inj: "inj_on split_ws (set (map fst d))"
    proof (rule inj_on_inverseI[where g = join_sp])
      fix key assume "key \<in> set (map fst d)"
      then obtain v where "(key, v) \<in> set d" by auto
      from row_of[OF this] show "join_sp (split_ws key) = key" by auto
    qed
    have dtoks: "distinct toks"
      unfolding toks_eq using dist inj by (subst distinct_map) (rule conjI)
    have each: "ints_of (toks ! i) = Some (ctxs ! i)
          \<and> (\<exists>j < paired. rows ! j = toks ! i \<and> ints_of (recs ! j) = Some (preds ! i)
               \<and> (\<forall>j'. j < j' \<and> j' < paired \<longrightarrow> rows ! j' \<noteq> toks ! i))"
      if i: "i < length ctxs" for i
    proof -
      obtain key v where kv: "d ! i = (key, v)" by (cases "d ! i")
      have mem: "(key, v) \<in> set d" using i lc kv nth_mem[of i d] by simp
      have ti: "toks ! i = split_ws key" using i lc kv by (simp add: toks_def)
      have pi: "preds ! i = v" using i lc kv by (simp add: preds)
      have p1: "ints_of (toks ! i) = Some (ctxs ! i)"
        using those_eq_Some_map[OF pr[unfolded parse_def]] i lc kv ti
        by (auto simp: ints_of_def)
      from row_of[OF mem] obtain j where j: "j < paired" "rows ! j = split_ws key"
        "recs_i ! j = v"
        "\<forall>j'. j < j' \<and> j' < paired \<longrightarrow> rows ! j' \<noteq> rows ! j"
        by blast
      have jr: "j < length recs" using j(1) by (simp add: paired_def)
      then have "ints_of (recs ! j) \<noteq> None"
        using ok_recs by (simp add: list_all_length)
      then have "ints_of (recs ! j) = Some (recs_i ! j)"
        using jr by (auto simp: recs_i_def)
      then have rec: "ints_of (recs ! j) = Some (preds ! i)"
        using j(3) pi by simp
      have p3: "\<exists>j < paired. rows ! j = toks ! i \<and> ints_of (recs ! j) = Some (preds ! i)
               \<and> (\<forall>j'. j < j' \<and> j' < paired \<longrightarrow> rows ! j' \<noteq> toks ! i)"
        using j(1,2,4) ti rec by (intro exI[of _ j]) simp
      from p1 p3 show ?thesis by (rule conjI)
    qed
    have l1: "length ctxs = length preds" by (simp add: lc preds)
    have l2: "length toks = length ctxs" by (simp add: toks_def lc)
    have every: "\<forall>i < length ctxs.
            ints_of (toks ! i) = Some (ctxs ! i)
          \<and> (\<exists>j < paired. rows ! j = toks ! i \<and> ints_of (recs ! j) = Some (preds ! i)
               \<and> (\<forall>j'. j < j' \<and> j' < paired \<longrightarrow> rows ! j' \<noteq> toks ! i))"
      by (intro allI impI) (rule each)
    from l2 dtoks stoks every
    have "length toks = length ctxs \<and> distinct toks
               \<and> set toks = set (take paired rows)
               \<and> (\<forall>i < length ctxs.
                    ints_of (toks ! i) = Some (ctxs ! i)
                  \<and> (\<exists>j < paired. rows ! j = toks ! i \<and> ints_of (recs ! j) = Some (preds ! i)
                       \<and> (\<forall>j'. j < j' \<and> j' < paired \<longrightarrow> rows ! j' \<noteq> toks ! i)))"
      by - (intro conjI, assumption+)
    then have ex: "\<exists>toks. length toks = length ctxs \<and> distinct toks
               \<and> set toks = set (take paired rows)
               \<and> (\<forall>i < length ctxs.
                    ints_of (toks ! i) = Some (ctxs ! i)
                  \<and> (\<exists>j < paired. rows ! j = toks ! i \<and> ints_of (recs ! j) = Some (preds ! i)
                       \<and> (\<forall>j'. j < j' \<and> j' < paired \<longrightarrow> rows ! j' \<noteq> toks ! i)))"
      by (rule exI)
    from l1 ok_rows ex show ?thesis by - (intro conjI, assumption+)
  qed
  from part1 part2 show ?thesis by blast
qed

text \<open>
  A file of three row lines, each followed by its recommend line; the context \<open>1\<close>
  occurs on the first and on the third row line.
\<close>

theorem load_topk_pred_result_witness:
  "load_topk_pred [''row 0 1'', ''recommend 5 6'', ''row 1 2'', ''recommend 7'',
                   ''row 2 1'', ''recommend 8 9''] 1 10
     = Some ([[1], [2]], [[8, 9], [7]])
   \<and> readable_file [''row 0 1'', ''recommend 5 6'', ''row 1 2'', ''recommend 7'',
                   ''row 2 1'', ''recommend 8 9''] 1
   \<and> length [[1], [2::int]] = length [[8, 9], [7::int]]
   \<and> list_all (\<lambda>ctx. int (length ctx) = 1)
        (row_contexts [''row 0 1'', ''recommend 5 6'', ''row 1 2'', ''recommend 7'',
                   ''row 2 1'', ''recommend 8 9''])
   \<and> (\<exists>toks. length toks = length [[1], [2::int]] \<and> distinct toks
         \<and> set toks = set (take
              (min (length (row_contexts [''row 0 1'', ''recommend 5 6'', ''row 1 2'',
                      ''recommend 7'', ''row 2 1'', ''recommend 8 9'']))
                   (length (rec_numbers [''row 0 1'', ''recommend 5 6'', ''row 1 2'',
                      ''recommend 7'', ''row 2 1'', ''recommend 8 9''])))
              (row_contexts [''row 0 1'', ''recommend 5 6'', ''row 1 2'',
                      ''recommend 7'', ''row 2 1'', ''recommend 8 9'']))
         \<and> (\<forall>i < length [[1], [2::int]].
               ints_of (toks ! i) = Some ([[1], [2]] ! i)
             \<and> (\<exists>j < min (length (row_contexts [''row 0 1'', ''recommend 5 6'', ''row 1 2'',
                             ''recommend 7'', ''row 2 1'', ''recommend 8 9'']))
                          (length (rec_numbers [''row 0 1'', ''recommend 5 6'', ''row 1 2'',
                             ''recommend 7'', ''row 2 1'', ''recommend 8 9''])).
                    row_contexts [''row 0 1'', ''recommend 5 6'', ''row 1 2'',
                             ''recommend 7'', ''row 2 1'', ''recommend 8 9''] ! j = toks ! i
                  \<and> ints_of (rec_numbers [''row 0 1'', ''recommend 5 6'', ''row 1 2'',
                             ''recommend 7'', ''row 2 1'', ''recommend 8 9''] ! j)
                      = Some ([[8, 9], [7]] ! i)
                  \<and> (\<forall>j'. j < j'
                         \<and> j' < min (length (row_contexts [''row 0 1'', ''recommend 5 6'',
                                   ''row 1 2'', ''recommend 7'', ''row 2 1'', ''recommend 8 9'']))
                                (length (rec_numbers [''row 0 1'', ''recommend 5 6'',
                                   ''row 1 2'', ''recommend 7'', ''row 2 1'', ''recommend 8 9'']))
                       \<longrightarrow> row_contexts [''row 0 1'', ''recommend 5 6'', ''row 1 2'',
                             ''recommend 7'', ''row 2 1'', ''recommend 8 9''] ! j' \<noteq> toks ! i))))"
proof -
  define F where "F = [''row 0 1'', ''recommend 5 6'', ''row 1 2'', ''recommend 7'',
                   ''row 2 1'', ''recommend 8 9'']"
  have ev: "load_topk_pred F 1 10 = Some ([[1], [2]], [[8, 9], [7]])"
    unfolding F_def by code_simp
  note th = load_topk_pred_result [of F 1 10]
  have r: "readable_file F 1"
    using th[THEN conjunct1] ev by simp
  note props = th[THEN conjunct2, THEN spec, THEN spec, THEN mp, OF ev]
  from ev r props show ?thesis
    unfolding F_def by (intro conjI) (elim conjE, assumption)+
qed

text \<open>
  What the claim says and the code does not do. The returned integer contexts need not
  be distinct: \<open>1\<close> and \<open>01\<close> are two dictionary keys and one integer. The prediction of a
  context need not come from its last row line: a row line without a partner is left
  out. And not every file is read: a blank line raises, and so does a row line with
  the wrong number of context tokens.
\<close>

theorem load_topk_pred_distinct_counterexample:
  "load_topk_pred [''row 0 1'', ''recommend 5'', ''row 1 01'', ''recommend 6''] 1 10
     = Some ([[1], [1]], [[5], [6]])
   \<and> \<not> distinct [[1], [1::int]]
   \<and> load_topk_pred [''row 0 1'', ''recommend 5'', ''row 1 1''] 1 10 = Some ([[1]], [[5]])
   \<and> load_topk_pred [''row 0 1'', '''', ''recommend 5''] 1 10 = None
   \<and> load_topk_pred [''row 0 1 2'', ''recommend 5''] 1 10 = None"
  by code_simp

lemma run_batches_eq:
  "run_batches step e bs m tr = (foldl step m bs, tr @ map (Update e) bs)"
  by (induction bs arbitrary: m tr) simp_all

lemma run_epochs_eq:
  "run_epochs step eval1 eval2 sampler [k..<n] (foldl step m0 (concat (map sampler [0..<k]))) tr
     = (foldl step m0 (concat (map sampler [0..<max k n])),
        tr @ concat (map (epoch_events step eval1 eval2 sampler m0) [k..<n]))"
proof (induction "n - k" arbitrary: k tr)
  case 0
  then show ?case by (simp add: max_def)
next
  case (Suc d)
  then have kn: "k < n" and d: "d = n - Suc k" by simp_all
  have up: "[k..<n] = k # [Suc k..<n]" using kn by (simp add: upt_conv_Cons)
  have m: "foldl step (foldl step m0 (concat (map sampler [0..<k]))) (sampler k)
      = foldl step m0 (concat (map sampler [0..<Suc k]))"
    by simp
  show ?case
    unfolding up
    using Suc.hyps(1)[OF d, of "(tr @ map (Update k) (sampler k)) @
        [Evaluate k (eval1 (foldl step m0 (concat (map sampler [0..<Suc k])))),
         Evaluate k (eval2 (foldl step m0 (concat (map sampler [0..<Suc k]))))]"] kn
    by (simp add: run_batches_eq m epoch_events_def model_after_def max_def del: upt_Suc)
qed

lemma training_loop_trace:
  "snd (training_loop step eval1 eval2 sampler n model)
     = concat (map (epoch_events step eval1 eval2 sampler model) [0..<n])"
  using run_epochs_eq[of step eval1 eval2 sampler 0 n model "[]"]
  by (simp add: training_loop_def)

lemma stamps_epoch:
  "x \<in> set (epoch_events step eval1 eval2 sampler model e) \<Longrightarrow> stamp x = 2 * e \<or> stamp x = 2 * e + 1"
  by (auto simp: epoch_events_def)

lemma sorted_const: "sorted (map (\<lambda>x. c :: nat) xs)"
  by (induction xs) simp_all

lemma sorted_epoch: "sorted (map stamp (epoch_events step eval1 eval2 sampler model e))"
  by (simp add: epoch_events_def sorted_append comp_def sorted_const)

lemma sorted_trace:
  "sorted (map stamp (concat (map (epoch_events step eval1 eval2 sampler model) [0..<n])))
   \<and> (\<forall>x \<in> set (concat (map (epoch_events step eval1 eval2 sampler model) [0..<n])). stamp x < 2 * n)"
proof (induction n)
  case 0
  show ?case by simp
next
  case (Suc n)
  have new: "\<forall>y \<in> set (epoch_events step eval1 eval2 sampler model n). 2 * n \<le> stamp y \<and> stamp y < 2 * Suc n"
  proof
    fix y assume "y \<in> set (epoch_events step eval1 eval2 sampler model n)"
    from stamps_epoch[OF this] show "2 * n \<le> stamp y \<and> stamp y < 2 * Suc n" by auto
  qed
  have old: "\<forall>x \<in> set (concat (map (epoch_events step eval1 eval2 sampler model) [0..<n])).
      stamp x < 2 * n"
    using Suc by blast
  have cross: "\<forall>x \<in> set (concat (map (epoch_events step eval1 eval2 sampler model) [0..<n])).
      \<forall>y \<in> set (epoch_events step eval1 eval2 sampler model n). stamp x \<le> stamp y"
    using old new by (meson less_imp_le less_le_trans)
  have bound: "\<forall>x \<in> set (concat (map (epoch_events step eval1 eval2 sampler model) [0..<n])).
      stamp x < 2 * Suc n"
  proof
    fix x assume "x \<in> set (concat (map (epoch_events step eval1 eval2 sampler model) [0..<n]))"
    with old have "stamp x < 2 * n" by blast
    then show "stamp x < 2 * Suc n" by simp
  qed
  have srt: "sorted (map stamp (concat (map (epoch_events step eval1 eval2 sampler model) [0..<n])))"
    using Suc by blast
  have app: "concat (map (epoch_events step eval1 eval2 sampler model) [0..<Suc n])
      = concat (map (epoch_events step eval1 eval2 sampler model) [0..<n])
        @ epoch_events step eval1 eval2 sampler model n"
    by simp
  show ?case
    unfolding app using srt sorted_epoch[of step eval1 eval2 sampler model n] cross bound new
    by (auto simp: sorted_append)
qed

text \<open>
  Claim C9. The trace of the training loop is, epoch after epoch, the updates on the
  batches of the epoch followed by the two evaluations of the epoch, each computed on
  the model after all updates so far; so every update of an epoch comes before the
  evaluations of that epoch, and after the evaluations of every earlier epoch.
\<close>

theorem training_loop_sequential:
  fixes step :: "'m \<Rightarrow> 'b \<Rightarrow> 'm" and eval1 eval2 :: "'m \<Rightarrow> 'r"
    and sampler :: "nat \<Rightarrow> 'b list" and n_epochs :: nat and model :: 'm
  defines "tr \<equiv> snd (training_loop step eval1 eval2 sampler n_epochs model)"
  shows "tr = concat (map (epoch_events step eval1 eval2 sampler model) [0..<n_epochs])
    \<and> (\<forall>i j e b r. i < length tr \<and> j < length tr \<and> tr ! i = Update e b \<and> tr ! j = Evaluate e r
          \<longrightarrow> i < j)
    \<and> (\<forall>i j e e' b r. i < length tr \<and> j < length tr \<and> tr ! i = Update e b
          \<and> tr ! j = Evaluate e' r \<and> e' < e \<longrightarrow> j < i)"
proof -
  have eq: "tr = concat (map (epoch_events step eval1 eval2 sampler model) [0..<n_epochs])"
    unfolding tr_def by (rule training_loop_trace)
  have srt: "sorted (map stamp tr)"
    unfolding eq using sorted_trace[of step eval1 eval2 sampler model n_epochs] by blast
  have mono: "stamp (tr ! a) \<le> stamp (tr ! c)" if "a \<le> c" "c < length tr" for a c
    using sorted_nth_mono[OF srt, of a c] that by simp
  have p2: "i < j" if "i < length tr" "j < length tr" "tr ! i = Update e b" "tr ! j = Evaluate e r"
    for i j e b r
  proof (rule ccontr)
    assume "\<not> i < j"
    then have "stamp (tr ! j) \<le> stamp (tr ! i)" using mono[of j i] that(1) by simp
    with that(3,4) show False by simp
  qed
  have p3: "j < i" if "i < length tr" "j < length tr" "tr ! i = Update e b"
    "tr ! j = Evaluate e' r" "e' < e" for i j e e' b r
  proof (rule ccontr)
    assume "\<not> j < i"
    then have "stamp (tr ! i) \<le> stamp (tr ! j)" using mono[of i j] that(2) by simp
    with that(3,4,5) show False by simp
  qed
  from eq p2 p3 show ?thesis by blast
qed

theorem training_loop_sequential_witness:
  "snd (training_loop (\<lambda>m b. m + b) (\<lambda>m. m) (\<lambda>m. 2 * m) (\<lambda>e. [e + 1, 10]) 2 (0::nat))
     = [Update 0 1, Update 0 10, Evaluate 0 11, Evaluate 0 22,
        Update 1 2, Update 1 10, Evaluate 1 23, Evaluate 1 46]"
proof -
  have "snd (training_loop (\<lambda>m b. m + b) (\<lambda>m. m) (\<lambda>m. 2 * m) (\<lambda>e. [e + 1, 10]) 2 (0::nat))
     = concat (map (epoch_events (\<lambda>m b. m + b) (\<lambda>m. m) (\<lambda>m. 2 * m) (\<lambda>e. [e + 1, 10]) 0) [0..<2])"
    using training_loop_sequential [of "\<lambda>m b. m + b" "\<lambda>m. m" "\<lambda>m. 2 * m" "\<lambda>e. [e + 1, 10]" 2 "0::nat"]
    by (rule conjunct1)
  then show ?thesis
    by (simp add: epoch_events_def model_after_def upt_rec)
qed

lemma sorted_prefix_less:
  "sorted xs \<Longrightarrow> p < length xs \<Longrightarrow> (xs ! p < i) = (p < length (filter (\<lambda>u. u < i) xs))"
proof (induction xs arbitrary: p)
  case Nil
  then show ?case by simp
next
  case (Cons x xs)
  show ?case
  proof (cases "x < i")
    case True
    with Cons show ?thesis by (cases p) simp_all
  next
    case False
    have all: "\<forall>y \<in> set (x # xs). \<not> y < i"
      using Cons.prems(1) False by auto
    then have "filter (\<lambda>u. u < i) (x # xs) = []"
      by (simp add: filter_empty_conv)
    moreover have "\<not> (x # xs) ! p < i"
      using all Cons.prems(2) nth_mem by blast
    ultimately show ?thesis by simp
  qed
qed

lemma count_less_Suc:
  "length (filter (\<lambda>u. u < Suc i) xs)
     = length (filter (\<lambda>u. u < i) xs) + length (filter (\<lambda>u. u = i) xs)"
  by (induction xs) auto

lemma sorted_position:
  assumes "sorted xs" "p < length xs"
  shows "(xs ! p = i) = (length (filter (\<lambda>u. u < i) xs) \<le> p \<and> p < length (filter (\<lambda>u. u < Suc i) xs))"
  using sorted_prefix_less[OF assms, of i] sorted_prefix_less[OF assms, of "Suc i"] by auto

lemma length_filter_fst_zip:
  "length xs = length ys \<Longrightarrow> length (filter (\<lambda>(u, m). pr u) (zip xs ys)) = length (filter pr xs)"
  by (induction xs ys rule: list_induct2) simp_all

lemma coo_shape0_bound: "u \<in> set users \<Longrightarrow> u < coo_shape0 users"
  by (auto simp: coo_shape0_def less_Suc_eq_le)

lemma csr_indptr_nth:
  assumes "length users = length movies" "distinct (zip users movies)" "i \<le> coo_shape0 users"
  shows "csr_indptr users movies ! i = length (filter (\<lambda>u. u < i) users)"
proof -
  have "distinct (filter (\<lambda>(u, m). u < i) (zip users movies))"
    using assms(2) by simp
  then have "remdups (filter (\<lambda>(u, m). u < i) (zip users movies))
      = filter (\<lambda>(u, m). u < i) (zip users movies)"
    by (rule distinct_remdups_id)
  moreover have "csr_indptr users movies ! i
      = length (remdups (filter (\<lambda>(u, m). u < i) (zip users movies)))"
    using assms(3) unfolding csr_indptr_def by (simp del: upt_Suc)
  ultimately have "csr_indptr users movies ! i
      = length (filter (\<lambda>(u, m). u < i) (zip users movies))"
    by (simp only:)
  also have "\<dots> = length (filter (\<lambda>u. u < i) users)"
    using assms(1) by (rule length_filter_fst_zip)
  finally show ?thesis .
qed

lemma pick_loop_closed:
  assumes "length rand = length is" "\<forall>i \<in> set is. 2 \<le> indptr ! (i + 1) - indptr ! i"
  shows "pick_loop movies indptr is rand (vs, ts, picks)
       = Some (fold (\<lambda>(i, a, b) vs. vs[i := movies ! a]) (zip is rand) vs,
               fold (\<lambda>(i, a, b) ts. ts[i := movies ! b]) (zip is rand) ts,
               fold (\<lambda>(a, b) pk. pk[a := True, b := True]) rand picks)"
  using assms
proof (induction "is" arbitrary: rand vs ts picks)
  case Nil
  then show ?case by simp
next
  case (Cons i "is")
  then obtain a b rand' where r: "rand = (a, b) # rand'"
    by (cases rand) auto
  have w: "\<not> indptr ! Suc i - indptr ! i < 2" using Cons.prems(2) by simp
  have "pick_loop movies indptr (i # is) rand (vs, ts, picks)
      = pick_loop movies indptr is rand'
          (vs[i := movies ! a], ts[i := movies ! b], picks[a := True, b := True])"
    using w by (simp add: r Let_def)
  also have "\<dots> = Some (fold (\<lambda>(i, a, b) vs. vs[i := movies ! a]) (zip is rand') (vs[i := movies ! a]),
               fold (\<lambda>(i, a, b) ts. ts[i := movies ! b]) (zip is rand') (ts[i := movies ! b]),
               fold (\<lambda>(a, b) pk. pk[a := True, b := True]) rand' (picks[a := True, b := True]))"
    using Cons.prems by (intro Cons.IH) (simp_all add: r)
  finally show ?case by (simp add: r)
qed

lemma fold_update_upt:
  "length rand \<le> length vs \<Longrightarrow>
     fold (\<lambda>(i, r) vs. vs[i := g r]) (zip [0..<length rand] rand) vs
       = map (\<lambda>i. g (rand ! i)) [0..<length rand] @ drop (length rand) vs"
proof (induction rand rule: rev_induct)
  case Nil
  show ?case by simp
next
  case (snoc r rand)
  define m where "m = length rand"
  have z: "zip [0..<length (rand @ [r])] (rand @ [r]) = zip [0..<m] rand @ [(m, r)]"
    by (simp add: m_def)
  have IH: "fold (\<lambda>(i, r) vs. vs[i := g r]) (zip [0..<m] rand) vs
       = map (\<lambda>i. g (rand ! i)) [0..<m] @ drop m vs"
    using snoc by (simp add: m_def)
  have lm: "m < length vs" using snoc.prems by (simp add: m_def)
  have "(map (\<lambda>i. g (rand ! i)) [0..<m] @ drop m vs)[m := g r]
      = map (\<lambda>i. g (rand ! i)) [0..<m] @ (drop m vs)[0 := g r]"
    by (simp add: list_update_append)
  also have "(drop m vs)[0 := g r] = g r # drop (Suc m) vs"
    using lm by (simp flip: Cons_nth_drop_Suc)
  finally have upd: "(map (\<lambda>i. g (rand ! i)) [0..<m] @ drop m vs)[m := g r]
      = map (\<lambda>i. g (rand ! i)) [0..<m] @ g r # drop (Suc m) vs" .
  have rhs: "map (\<lambda>i. g ((rand @ [r]) ! i)) [0..<length (rand @ [r])]
      = map (\<lambda>i. g (rand ! i)) [0..<m] @ [g r]"
    by (simp add: m_def nth_append)
  have "fold (\<lambda>(i, r) vs. vs[i := g r]) (zip [0..<m] rand @ [(m, r)]) vs
      = (fold (\<lambda>(i, r) vs. vs[i := g r]) (zip [0..<m] rand) vs)[m := g r]"
    by simp
  also have "\<dots> = map (\<lambda>i. g (rand ! i)) [0..<m] @ g r # drop (Suc m) vs"
    by (simp only: IH upd)
  also have "\<dots> = map (\<lambda>i. g ((rand @ [r]) ! i)) [0..<length (rand @ [r])]
      @ drop (length (rand @ [r])) vs"
    unfolding rhs by (simp add: m_def)
  finally show ?case unfolding z .
qed

lemma fold_picks:
  "length (fold (\<lambda>(a, b) pk. pk[a := True, b := True]) rand picks) = length picks
   \<and> (\<forall>p < length picks. fold (\<lambda>(a, b) pk. pk[a := True, b := True]) rand picks ! p
          = (picks ! p \<or> (\<exists>(a, b) \<in> set rand. p = a \<or> p = b)))"
proof (induction rand arbitrary: picks)
  case Nil
  show ?case by simp
next
  case (Cons r rand)
  obtain a b where r: "r = (a, b)" by (cases r)
  define picks' where "picks' = picks[a := True, b := True]"
  have l: "length picks' = length picks" by (simp add: picks'_def)
  have step: "fold (\<lambda>(a, b) pk. pk[a := True, b := True]) (r # rand) picks
      = fold (\<lambda>(a, b) pk. pk[a := True, b := True]) rand picks'"
    by (simp add: r picks'_def)
  have first: "picks' ! p = (picks ! p \<or> p = a \<or> p = b)" if "p < length picks" for p
  proof -
    have "picks[a := True, b := True] ! p
        = (if p = b then True else if p = a then True else picks ! p)"
      using that by (simp add: nth_list_update)
    then show ?thesis unfolding picks'_def by (cases "p = b"; cases "p = a") simp_all
  qed
  from Cons.IH[of picks'] have
    len: "length (fold (\<lambda>(a, b) pk. pk[a := True, b := True]) rand picks') = length picks"
    and nth: "\<forall>p < length picks. fold (\<lambda>(a, b) pk. pk[a := True, b := True]) rand picks' ! p
          = (picks' ! p \<or> (\<exists>(a, b) \<in> set rand. p = a \<or> p = b))"
    by (simp_all add: l)
  have "fold (\<lambda>(a, b) pk. pk[a := True, b := True]) rand picks' ! p
      = (picks ! p \<or> (\<exists>(a, b) \<in> set (r # rand). p = a \<or> p = b))" if "p < length picks" for p
    using nth that first[OF that] by (simp add: r)
  then show ?case unfolding step using len by blast
qed

lemma keep_positions:
  "length ps = length xs \<Longrightarrow>
     map fst (filter (\<lambda>(x, p). \<not> p) (zip xs ps))
       = map ((!) xs) (filter (\<lambda>q. \<not> ps ! q) [0..<length xs])"
proof (induction xs arbitrary: ps rule: rev_induct)
  case Nil
  show ?case by simp
next
  case (snoc x xs)
  then obtain ps' p where ps: "ps = ps' @ [p]" "length ps' = length xs"
    by (cases ps rule: rev_cases) auto
  define m where "m = length xs"
  have f: "filter (\<lambda>q. \<not> (ps' @ [p]) ! q) [0..<m] = filter (\<lambda>q. \<not> ps' ! q) [0..<m]"
    using ps(2) by (intro filter_cong) (simp_all add: nth_append m_def)
  have mp: "map ((!) (xs @ [x])) (filter (\<lambda>q. \<not> ps' ! q) [0..<m])
      = map ((!) xs) (filter (\<lambda>q. \<not> ps' ! q) [0..<m])"
    by (intro map_cong) (simp_all add: nth_append m_def)
  have lhs: "map fst (filter (\<lambda>(x, p). \<not> p) (zip (xs @ [x]) (ps' @ [p])))
      = map fst (filter (\<lambda>(x, p). \<not> p) (zip xs ps')) @ (if p then [] else [x])"
    using ps(2) by simp
  have "filter (\<lambda>q. \<not> (ps' @ [p]) ! q) [0..<length (xs @ [x])]
      = filter (\<lambda>q. \<not> (ps' @ [p]) ! q) [0..<m] @ (if p then [] else [m])"
    using ps(2) by (simp add: m_def nth_append)
  then have rhs: "map ((!) (xs @ [x])) (filter (\<lambda>q. \<not> (ps' @ [p]) ! q) [0..<length (xs @ [x])])
      = map ((!) xs) (filter (\<lambda>q. \<not> ps' ! q) [0..<m]) @ (if p then [] else [x])"
    by (simp only: f map_append mp) (simp add: m_def)
  show ?case
    unfolding ps(1) lhs rhs using snoc.IH[OF ps(2)] by (simp add: m_def)
qed

lemma choice_outcomes_nth:
  assumes "choice_outcomes indptr rand" "i < length rand"
  shows "fst (rand ! i) \<noteq> snd (rand ! i)
    \<and> indptr ! i \<le> fst (rand ! i) \<and> fst (rand ! i) < indptr ! Suc i
    \<and> indptr ! i \<le> snd (rand ! i) \<and> snd (rand ! i) < indptr ! Suc i"
proof -
  have "zip [0..<length rand] rand ! i = (i, rand ! i)"
    using assms(2) by simp
  moreover have "zip [0..<length rand] rand ! i \<in> set (zip [0..<length rand] rand)"
    using assms(2) by (intro nth_mem) simp
  ultimately have mem: "(i, rand ! i) \<in> set (zip [0..<length rand] rand)"
    by simp
  have "\<forall>x \<in> set (zip [0..<length rand] rand).
      (case x of (i, a, b) \<Rightarrow> a \<noteq> b \<and> indptr ! i \<le> a \<and> a < indptr ! (i + 1)
                                \<and> indptr ! i \<le> b \<and> b < indptr ! (i + 1))"
    using assms(1) unfolding choice_outcomes_def list_all_iff by (rule conjunct2)
  from bspec[OF this mem] show ?thesis
    by (simp add: case_prod_beta)
qed

lemma card_picked:
  fixes A B :: "nat \<Rightarrow> nat"
  assumes "\<forall>i < n. A i \<noteq> B i \<and> f (A i) = i \<and> f (B i) = i"
  shows "card (\<Union>i \<in> {..<n}. {A i, B i}) = 2 * n"
proof -
  have own: "f x = i" if "i < n" "x \<in> {A i, B i}" for i x
  proof -
    from assms that(1) have "f (A i) = i" "f (B i) = i" by simp_all
    with that(2) show ?thesis by (cases "x = A i") simp_all
  qed
  have "card (\<Union>i \<in> {..<n}. {A i, B i}) = (\<Sum>i \<in> {..<n}. card {A i, B i})"
  proof (rule card_UN_disjoint)
    show "finite {..<n}" by simp
    show "\<forall>i \<in> {..<n}. finite {A i, B i}" by simp
    show "\<forall>i \<in> {..<n}. \<forall>j \<in> {..<n}. i \<noteq> j \<longrightarrow> {A i, B i} \<inter> {A j, B j} = {}"
    proof (intro ballI impI)
      fix i j assume i: "i \<in> {..<n}" and j: "j \<in> {..<n}" and ij: "i \<noteq> j"
      show "{A i, B i} \<inter> {A j, B j} = {}"
      proof (rule ccontr)
        assume "{A i, B i} \<inter> {A j, B j} \<noteq> {}"
        then obtain x where x: "x \<in> {A i, B i}" "x \<in> {A j, B j}" by blast
        have "f x = i" using own[OF _ x(1)] i by simp
        moreover have "f x = j" using own[OF _ x(2)] j by simp
        ultimately show False using ij by simp
      qed
    qed
  qed
  also have "\<dots> = (\<Sum>i \<in> {..<n}. 2)"
  proof (rule sum.cong[OF refl])
    fix i assume "i \<in> {..<n}"
    then have "A i \<noteq> B i" using assms by simp
    then show "card {A i, B i} = 2" by simp
  qed
  finally show ?thesis by simp
qed

text \<open>
  What \<open>pick_test\<close> does on the matrices it is written for. For a matrix whose entries
  are stored row by row (\<open>users\<close> sorted) without duplicates, in which every user has at
  least two interactions and more than two interactions per user are present in total,
  \<open>pick_test\<close> returns; it removes two interactions per user, a validation and a test
  item that differ and are both movies of that user; the training matrix holds exactly
  the other interactions, so that it has the original number of entries minus twice the
  number of users.
\<close>

theorem pick_test_split:
  fixes users movies :: "nat list"
  defines "n \<equiv> coo_shape0 users"
  assumes len: "length users = length movies"
    and srt: "sorted users"
    and dist: "distinct (zip users movies)"
    and two: "\<forall>i < n. 2 \<le> length (filter (\<lambda>u. u = i) users)"
    and rnd: "choice_outcomes (csr_indptr users movies) rand"
    and rest: "2 * n < length users"
  shows "\<exists>train_users train_movies valid_set test_set.
      pick_test users movies rand = Some ((train_users, train_movies), valid_set, test_set)
    \<and> length train_users = length users - 2 * n
    \<and> length train_movies = length train_users
    \<and> length valid_set = n \<and> length test_set = n
    \<and> (\<forall>i < n. (i, valid_set ! i) \<in> set (zip users movies)
                \<and> (i, test_set ! i) \<in> set (zip users movies)
                \<and> valid_set ! i \<noteq> test_set ! i)
    \<and> set (zip train_users train_movies)
        = set (zip users movies) - (\<Union>i \<in> {..<n}. {(i, valid_set ! i), (i, test_set ! i)})"
proof -
  define indptr where "indptr = csr_indptr users movies"
  define cnt where "cnt = (\<lambda>i. length (filter (\<lambda>u. u < i) users))"
  define A where "A = (\<lambda>i. fst (rand ! i))"
  define B where "B = (\<lambda>i. snd (rand ! i))"
  define L where "L = length users"
  have ip: "indptr ! i = cnt i" if "i \<le> n" for i
    unfolding indptr_def cnt_def using len dist that by (intro csr_indptr_nth) (simp_all add: n_def)
  have lrand: "length rand = n"
    using rnd by (simp add: choice_outcomes_def csr_indptr_def n_def)
  have cntL: "cnt i \<le> L" for i
    by (simp add: cnt_def L_def)
  have rng: "A i \<noteq> B i \<and> cnt i \<le> A i \<and> A i < cnt (Suc i) \<and> cnt i \<le> B i \<and> B i < cnt (Suc i)"
    if "i < n" for i
    using choice_outcomes_nth[OF rnd, of i] that lrand ip[of i] ip[of "Suc i"]
    by (simp add: A_def B_def indptr_def)
  have AL: "A i < L" and BL: "B i < L" if "i < n" for i
    using rng[OF that] cntL[of "Suc i"] by simp_all
  have uA: "users ! A i = i" and uB: "users ! B i = i" if "i < n" for i
    using rng[OF that] AL[OF that] BL[OF that] sorted_position[OF srt, of _ i]
    by (simp_all add: cnt_def L_def)
  have width: "\<forall>i \<in> set [0..<n]. 2 \<le> indptr ! (i + 1) - indptr ! i"
  proof
    fix i assume "i \<in> set [0..<n]"
    then have i: "i < n" by simp
    have "cnt (Suc i) = cnt i + length (filter (\<lambda>u. u = i) users)"
      unfolding cnt_def by (rule count_less_Suc)
    then show "2 \<le> indptr ! (i + 1) - indptr ! i"
      using two i ip[of i] ip[of "Suc i"] by simp
  qed
  define vs where "vs = map (\<lambda>i. movies ! A i) [0..<n]"
  define ts where "ts = map (\<lambda>i. movies ! B i) [0..<n]"
  define pk where "pk = fold (\<lambda>(a, b) pk. pk[a := True, b := True]) rand (replicate L False)"
  have fvs: "fold (\<lambda>(i, a, b) vs. vs[i := movies ! a]) (zip [0..<n] rand) (replicate n 0) = vs"
  proof -
    have fe: "(\<lambda>(i, a, b) vs. vs[i := movies ! a])
        = (\<lambda>(i, r) vs. vs[i := (\<lambda>r. movies ! fst r) r])"
      by (simp add: fun_eq_iff)
    have "fold (\<lambda>(i, a, b) vs. vs[i := movies ! a]) (zip [0..<n] rand) (replicate n 0)
        = fold (\<lambda>(i, r) vs. vs[i := (\<lambda>r. movies ! fst r) r]) (zip [0..<length rand] rand)
            (replicate n 0)"
      unfolding fe by (simp only: lrand)
    also have "\<dots> = map (\<lambda>i. movies ! fst (rand ! i)) [0..<length rand]
        @ drop (length rand) (replicate n 0)"
      by (rule fold_update_upt) (simp add: lrand)
    finally show ?thesis by (simp add: lrand vs_def A_def)
  qed
  have fts: "fold (\<lambda>(i, a, b) ts. ts[i := movies ! b]) (zip [0..<n] rand) (replicate n 0) = ts"
  proof -
    have fe: "(\<lambda>(i, a, b) ts. ts[i := movies ! b])
        = (\<lambda>(i, r) ts. ts[i := (\<lambda>r. movies ! snd r) r])"
      by (simp add: fun_eq_iff)
    have "fold (\<lambda>(i, a, b) ts. ts[i := movies ! b]) (zip [0..<n] rand) (replicate n 0)
        = fold (\<lambda>(i, r) ts. ts[i := (\<lambda>r. movies ! snd r) r]) (zip [0..<length rand] rand)
            (replicate n 0)"
      unfolding fe by (simp only: lrand)
    also have "\<dots> = map (\<lambda>i. movies ! snd (rand ! i)) [0..<length rand]
        @ drop (length rand) (replicate n 0)"
      by (rule fold_update_upt) (simp add: lrand)
    finally show ?thesis by (simp add: lrand ts_def B_def)
  qed
  have loop: "pick_loop movies indptr [0..<n] rand (replicate n 0, replicate n 0, replicate L False)
      = Some (vs, ts, pk)"
    using pick_loop_closed[of rand "[0..<n]" indptr movies "replicate n 0" "replicate n 0"
        "replicate L False"] lrand width
    by (simp only: fvs fts pk_def length_upt diff_zero)
  have lpk: "length pk = L"
    using fold_picks[of rand "replicate L False"] by (simp add: pk_def)
  define S where "S = (\<Union>i \<in> {..<n}. {A i, B i})"
  have pkS: "pk ! p = (p \<in> S)" if "p < L" for p
  proof -
    have "pk ! p = (\<exists>(a, b) \<in> set rand. p = a \<or> p = b)"
      using fold_picks[of rand "replicate L False"] that by (simp add: pk_def)
    also have "\<dots> = (\<exists>i < n. p = A i \<or> p = B i)"
    proof
      assume "\<exists>(a, b) \<in> set rand. p = a \<or> p = b"
      then obtain r where r: "r \<in> set rand" "p = fst r \<or> p = snd r"
        by (auto simp: case_prod_beta)
      then obtain i where "i < n" "r = rand ! i"
        using lrand by (auto simp: in_set_conv_nth)
      with r(2) show "\<exists>i < n. p = A i \<or> p = B i"
        unfolding A_def B_def by blast
    next
      assume "\<exists>i < n. p = A i \<or> p = B i"
      then obtain i where i: "i < n" "p = A i \<or> p = B i" by blast
      have "rand ! i \<in> set rand" using i(1) lrand by simp
      with i(2) show "\<exists>(a, b) \<in> set rand. p = a \<or> p = b"
        unfolding A_def B_def by (intro bexI[of _ "rand ! i"]) (simp_all add: case_prod_beta)
    qed
    also have "\<dots> = (p \<in> S)"
      by (auto simp: S_def)
    finally show ?thesis .
  qed
  have SL: "S \<subseteq> {..<L}"
    using AL BL by (auto simp: S_def)
  have cS: "card S = 2 * n"
    unfolding S_def
  proof (rule card_picked[where f = "\<lambda>q. users ! q"])
    show "\<forall>i < n. A i \<noteq> B i \<and> users ! A i = i \<and> users ! B i = i"
      using rng uA uB by simp
  qed
  define keep where "keep = filter (\<lambda>q. \<not> pk ! q) [0..<L]"
  have keep_set: "set keep = {..<L} - S"
    using pkS by (auto simp: keep_def)
  have lkeep: "length keep = L - 2 * n"
  proof -
    have "distinct keep" by (simp add: keep_def)
    then have "length keep = card (set keep)" by (simp add: distinct_card)
    also have "\<dots> = card {..<L} - card S"
      unfolding keep_set using SL by (intro card_Diff_subset) (auto intro: finite_subset)
    finally show ?thesis by (simp add: cS)
  qed
  define tu where "tu = map ((!) users) keep"
  define tm where "tm = map ((!) movies) keep"
  have tu_eq: "map fst (filter (\<lambda>(u, p). \<not> p) (zip users pk)) = tu"
    using keep_positions[of pk users] lpk by (simp add: tu_def keep_def L_def)
  have tm_eq: "map fst (filter (\<lambda>(m, p). \<not> p) (zip movies pk)) = tm"
    using keep_positions[of pk movies] lpk len by (simp add: tm_def keep_def L_def)
  have tune: "tu \<noteq> []"
    using lkeep rest by (auto simp: tu_def L_def)
  have res: "pick_test users movies rand = Some ((tu, tm), vs, ts)"
    unfolding pick_test_def Let_def
    by (simp only: n_def[symmetric] indptr_def[symmetric] L_def[symmetric] loop option.case
        prod.case tu_eq tm_eq tune if_False)
  have pairs: "zip tu tm = map (\<lambda>q. (users ! q, movies ! q)) keep"
    unfolding tu_def tm_def by (induction keep) simp_all
  have zn: "zip users movies ! q = (users ! q, movies ! q)" if "q < L" for q
    using that len by (simp add: L_def)
  have lz: "length (zip users movies) = L"
    using len by (simp add: L_def)
  have valid_in: "(i, vs ! i) \<in> set (zip users movies) \<and> (i, ts ! i) \<in> set (zip users movies)
      \<and> vs ! i \<noteq> ts ! i" if i: "i < n" for i
  proof -
    have a: "zip users movies ! A i = (i, vs ! i)"
      using zn[OF AL[OF i]] uA[OF i] i by (simp add: vs_def)
    have b: "zip users movies ! B i = (i, ts ! i)"
      using zn[OF BL[OF i]] uB[OF i] i by (simp add: ts_def)
    have "A i < length (zip users movies)" using AL[OF i] by (simp only: lz)
    then have "zip users movies ! A i \<in> set (zip users movies)" by (rule nth_mem)
    then have ma: "(i, vs ! i) \<in> set (zip users movies)" by (simp only: a)
    have "B i < length (zip users movies)" using BL[OF i] by (simp only: lz)
    then have "zip users movies ! B i \<in> set (zip users movies)" by (rule nth_mem)
    then have mb: "(i, ts ! i) \<in> set (zip users movies)" by (simp only: b)
    have "zip users movies ! A i \<noteq> zip users movies ! B i"
      using nth_eq_iff_index_eq[OF dist, of "A i" "B i"] rng[OF i] AL[OF i] BL[OF i]
      by (simp only: lz) simp
    with a b have "vs ! i \<noteq> ts ! i" by simp
    with ma mb show ?thesis by simp
  qed
  have removed: "(\<Union>i \<in> {..<n}. {(i, vs ! i), (i, ts ! i)}) = (\<lambda>q. zip users movies ! q) ` S"
  proof -
    have "(\<lambda>q. zip users movies ! q) ` {A i, B i} = {(i, vs ! i), (i, ts ! i)}" if i: "i < n" for i
      using zn[OF AL[OF i]] zn[OF BL[OF i]] uA[OF i] uB[OF i] i by (simp add: vs_def ts_def)
    then show ?thesis
      unfolding S_def image_UN by (intro SUP_cong[OF refl, symmetric]) simp
  qed
  have train: "set (zip tu tm)
      = set (zip users movies) - (\<Union>i \<in> {..<n}. {(i, vs ! i), (i, ts ! i)})"
  proof -
    have inj: "inj_on (\<lambda>q. zip users movies ! q) {..<L}"
    proof (rule inj_onI)
      fix x y assume "x \<in> {..<L}" "y \<in> {..<L}"
        and e: "zip users movies ! x = zip users movies ! y"
      then have "x < length (zip users movies)" "y < length (zip users movies)"
        by (simp_all only: lz lessThan_iff)
      with e show "x = y" using nth_eq_iff_index_eq[OF dist] by blast
    qed
    have "set (zip tu tm) = (\<lambda>q. zip users movies ! q) ` ({..<L} - S)"
      unfolding pairs set_map keep_set by (intro image_cong[OF refl]) (simp add: zn)
    also have "\<dots> = (\<lambda>q. zip users movies ! q) ` {..<L} - (\<lambda>q. zip users movies ! q) ` S"
      using inj SL by (intro inj_on_image_set_diff[of _ "{..<L}"]) simp_all
    also have "(\<lambda>q. zip users movies ! q) ` {..<L} = set (zip users movies)"
    proof -
      have "set (zip users movies) = {zip users movies ! q | q. q < length (zip users movies)}"
        by (rule set_conv_nth)
      also have "\<dots> = (\<lambda>q. zip users movies ! q) ` {..<L}"
        unfolding lz by blast
      finally show ?thesis by simp
    qed
    finally show ?thesis by (simp only: removed)
  qed
  have l1: "length tu = length users - 2 * n" by (simp add: tu_def lkeep L_def)
  have l2: "length tm = length tu" by (simp add: tu_def tm_def)
  have l3: "length vs = n" by (simp add: vs_def)
  have l4: "length ts = n" by (simp add: ts_def)
  have every: "\<forall>i < n. (i, vs ! i) \<in> set (zip users movies)
                \<and> (i, ts ! i) \<in> set (zip users movies) \<and> vs ! i \<noteq> ts ! i"
    by (intro allI impI) (rule valid_in)
  from res l1 l2 l3 l4 every train
  have "pick_test users movies rand = Some ((tu, tm), vs, ts)
    \<and> length tu = length users - 2 * n
    \<and> length tm = length tu
    \<and> length vs = n \<and> length ts = n
    \<and> (\<forall>i < n. (i, vs ! i) \<in> set (zip users movies)
                \<and> (i, ts ! i) \<in> set (zip users movies)
                \<and> vs ! i \<noteq> ts ! i)
    \<and> set (zip tu tm)
        = set (zip users movies) - (\<Union>i \<in> {..<n}. {(i, vs ! i), (i, ts ! i)})"
    by - (intro conjI, assumption+)
  then show ?thesis by (intro exI)
qed

theorem pick_test_split_witness:
  "pick_test [0,0,0,1,1,1] [6,7,9,5,8,4] [(0,1),(3,4)] = Some (([0,1],[9,4]),[6,5],[7,8])
   \<and> (\<exists>train_users train_movies valid_set test_set.
      pick_test [0,0,0,1,1,1] [6,7,9,5,8,4] [(0,1),(3,4)]
        = Some ((train_users, train_movies), valid_set, test_set)
    \<and> length train_users = length [0,0,0,1,1,1::nat] - 2 * coo_shape0 [0,0,0,1,1,1]
    \<and> length train_movies = length train_users
    \<and> length valid_set = coo_shape0 [0,0,0,1,1,1] \<and> length test_set = coo_shape0 [0,0,0,1,1,1]
    \<and> (\<forall>i < coo_shape0 [0,0,0,1,1,1].
            (i, valid_set ! i) \<in> set (zip [0,0,0,1,1,1] [6,7,9,5,8,4])
          \<and> (i, test_set ! i) \<in> set (zip [0,0,0,1,1,1] [6,7,9,5,8,4])
          \<and> valid_set ! i \<noteq> test_set ! i)
    \<and> set (zip train_users train_movies)
        = set (zip [0,0,0,1,1,1] [6,7,9,5,8,4])
          - (\<Union>i \<in> {..<coo_shape0 [0,0,0,1,1,1]}. {(i, valid_set ! i), (i, test_set ! i)}))"
proof -
  have n: "coo_shape0 [0,0,0,1,1,1] = 2" by code_simp
  have h1: "length [0,0,0,1,1,1::nat] = length [6,7,9,5,8,4::nat]" by simp
  have h2: "sorted [0,0,0,1,1,1::nat]" by simp
  have h3: "distinct (zip [0,0,0,1,1,1::nat] [6,7,9,5,8,4::nat])" by simp
  have h4: "\<forall>i < coo_shape0 [0,0,0,1,1,1]. 2 \<le> length (filter (\<lambda>u. u = i) [0,0,0,1,1,1])"
    unfolding n by (simp add: less_Suc_eq numeral_2_eq_2)
  have h5: "choice_outcomes (csr_indptr [0,0,0,1,1,1] [6,7,9,5,8,4]) [(0,1),(3,4)]"
    by code_simp
  have h6: "2 * coo_shape0 [0,0,0,1,1,1] < length [0,0,0,1,1,1::nat]"
    unfolding n by simp
  have ev: "pick_test [0,0,0,1,1,1] [6,7,9,5,8,4] [(0,1),(3,4)]
      = Some (([0,1],[9,4]),[6,5],[7,8])"
    by code_simp
  show ?thesis
    using ev pick_test_split [OF h1 h2 h3 h4 h5 h6] by (rule conjI)
qed

text \<open>
  Claim C7. The claim is about every matrix in which every user has at least two
  interactions. When the entries are not stored row by row, position \<open>p\<close> of the CSR
  arrays and position \<open>p\<close> of the COO arrays are different entries, and \<open>pick_test\<close> reads
  the COO arrays at CSR positions: here both users have three interactions, user 0
  gets the validation item 5, a movie only user 1 has interacted with, and the
  interaction removed for it is one of user 1.
\<close>

theorem pick_test_unsorted_input:
  "pick_test [1,0,0,1,0,1] [5,6,7,8,9,4] [(0,1),(3,4)] = Some (([0,1],[7,4]),[5,8],[6,9])
   \<and> choice_outcomes (csr_indptr [1,0,0,1,0,1] [5,6,7,8,9,4]) [(0,1),(3,4)]
   \<and> length (filter (\<lambda>u. u = 0) [1,0,0,1,0,1::nat]) = 3
   \<and> length (filter (\<lambda>u. u = 1) [1,0,0,1,0,1::nat]) = 3
   \<and> (0::nat, 5::nat) \<notin> set (zip [1,0,0,1,0,1] [5,6,7,8,9,4])"
  by code_simp

subsection \<open>gen_neg_set\<close>

lemma add_movies_props:
  assumes "distinct ms" "length ms < n" "\<forall>m \<in> set ms. row m = 0"
  shows "distinct (add_movies row n d ms) \<and> length (add_movies row n d ms) \<le> n
    \<and> (\<forall>m \<in> set (add_movies row n d ms). row m = 0)
    \<and> (length (add_movies row n d ms) = n
        \<or> set (add_movies row n d ms) = set ms \<union> {m \<in> set d. row m = 0})"
  using assms
proof (induction d arbitrary: ms)
  case Nil
  then show ?case by simp
next
  case (Cons movie d)
  define ms' where "ms' = (if row movie = 0 then List.insert movie ms else ms)"
  have d': "distinct ms'" using Cons.prems(1) by (simp add: ms'_def)
  have z': "\<forall>m \<in> set ms'. row m = 0" using Cons.prems(3) by (simp add: ms'_def)
  have l': "length ms' \<le> n" using Cons.prems(2) by (simp add: ms'_def List.insert_def)
  have s': "set ms' = set ms \<union> {m \<in> set [movie]. row m = 0}"
    by (auto simp: ms'_def)
  show ?case
  proof (cases "length ms' = n")
    case True
    then have "add_movies row n (movie # d) ms = ms'"
      by (simp add: ms'_def Let_def)
    with d' z' True show ?thesis by simp
  next
    case False
    then have step: "add_movies row n (movie # d) ms = add_movies row n d ms'"
      by (simp add: ms'_def Let_def)
    have "length ms' < n" using False l' by simp
    from Cons.IH[OF d' this z'] show ?thesis
      unfolding step s' by auto
  qed
qed

lemma sample_user_result_aux:
  assumes ret: "sample_user draws t row nm n ms = Some y"
  shows "distinct ms \<and> length ms \<le> n \<and> (\<forall>m \<in> set ms. row m = 0)
       \<longrightarrow> y = Inl ValueError \<or> (\<exists>res. y = Inr res \<and> good_row row n res)"
proof (rule sample_user.raw_induct[where P = "\<lambda>draws t row nm n ms y.
    distinct ms \<and> length ms \<le> n \<and> (\<forall>m \<in> set ms. row m = 0)
       \<longrightarrow> y = Inl ValueError \<or> (\<exists>res. y = Inr res \<and> good_row row n res)", OF _ ret])
  fix f :: "(nat \<Rightarrow> nat list) \<Rightarrow> nat \<Rightarrow> (nat \<Rightarrow> real) \<Rightarrow> nat \<Rightarrow> nat \<Rightarrow> nat list
      \<Rightarrow> (py_error + nat list) option"
    and draws t row nm n ms y
  assume IH: "\<And>d t r nm n ms y. f d t r nm n ms = Some y \<Longrightarrow>
      distinct ms \<and> length ms \<le> n \<and> (\<forall>m \<in> set ms. r m = 0)
       \<longrightarrow> y = Inl ValueError \<or> (\<exists>res. y = Inr res \<and> good_row r n res)"
    and eq: "(if length ms < n
        then if nm < n then Some (Inl ValueError)
             else f draws (Suc t) row nm n (add_movies row n (draws t) ms)
        else Some (Inr ms)) = Some y"
  show "distinct ms \<and> length ms \<le> n \<and> (\<forall>m \<in> set ms. row m = 0)
       \<longrightarrow> y = Inl ValueError \<or> (\<exists>res. y = Inr res \<and> good_row row n res)"
  proof
    assume inv: "distinct ms \<and> length ms \<le> n \<and> (\<forall>m \<in> set ms. row m = 0)"
    show "y = Inl ValueError \<or> (\<exists>res. y = Inr res \<and> good_row row n res)"
    proof (cases "length ms < n")
      case False
      with eq have "y = Inr ms" by simp
      moreover have "good_row row n ms"
        using False inv by (simp add: good_row_def list_all_iff)
      ultimately show ?thesis by blast
    next
      case True
      show ?thesis
      proof (cases "nm < n")
        case T: True
        with True eq show ?thesis by simp
      next
        case F: False
        with True eq have rec: "f draws (Suc t) row nm n (add_movies row n (draws t) ms) = Some y"
          by simp
        have "distinct (add_movies row n (draws t) ms)
            \<and> length (add_movies row n (draws t) ms) \<le> n
            \<and> (\<forall>m \<in> set (add_movies row n (draws t) ms). row m = 0)"
          using add_movies_props[of ms n row "draws t"] inv True by blast
        with IH[OF rec] show ?thesis by blast
      qed
    qed
  qed
qed

lemma sample_user_result:
  assumes "sample_user draws t row nm n [] = Some y"
  shows "y = Inl ValueError \<or> (\<exists>res. y = Inr res \<and> good_row row n res)"
  using sample_user_result_aux[OF assms] by simp

lemma sample_user_returns:
  assumes "n \<le> nm" "distinct ms" "length ms \<le> n" "\<forall>m \<in> set ms. row m = 0"
    and "n \<le> card (set ms \<union> {m. \<exists>t'. t \<le> t' \<and> t' < T \<and> m \<in> set (draws t') \<and> row m = 0})"
  shows "\<exists>res. sample_user draws t row nm n ms = Some (Inr res)"
  using assms
proof (induction "T - t" arbitrary: t ms)
  case 0
  then have "{m. \<exists>t'. t \<le> t' \<and> t' < T \<and> m \<in> set (draws t') \<and> row m = 0} = {}"
    by auto
  with 0 have "n \<le> card (set ms)" by simp
  also have "\<dots> = length ms" using 0 by (simp add: distinct_card)
  finally have "\<not> length ms < n" by simp
  then show ?case by (subst sample_user.simps) simp
next
  case (Suc k)
  show ?case
  proof (cases "length ms < n")
    case False
    then show ?thesis by (subst sample_user.simps) simp
  next
    case True
    define ms' where "ms' = add_movies row n (draws t) ms"
    have step: "sample_user draws t row nm n ms = sample_user draws (Suc t) row nm n ms'"
      using True Suc.prems(1) by (subst sample_user.simps) (simp add: ms'_def)
    from add_movies_props[OF Suc.prems(2) True Suc.prems(4), of "draws t"]
    have d': "distinct ms'" and l': "length ms' \<le> n" and z': "\<forall>m \<in> set ms'. row m = 0"
      and alt: "length ms' = n \<or> set ms' = set ms \<union> {m \<in> set (draws t). row m = 0}"
      by (simp_all add: ms'_def)
    have tT: "t < T" using Suc.hyps(2) by simp
    have k: "k = T - Suc t" using Suc.hyps(2) by simp
    from alt show ?thesis
    proof
      assume "length ms' = n"
      then show ?thesis unfolding step by (subst sample_user.simps) simp
    next
      assume s': "set ms' = set ms \<union> {m \<in> set (draws t). row m = 0}"
      have "set ms \<union> {m. \<exists>t'. t \<le> t' \<and> t' < T \<and> m \<in> set (draws t') \<and> row m = 0}
          \<subseteq> set ms' \<union> {m. \<exists>t'. Suc t \<le> t' \<and> t' < T \<and> m \<in> set (draws t') \<and> row m = 0}"
      proof
        fix m assume "m \<in> set ms \<union> {m. \<exists>t'. t \<le> t' \<and> t' < T \<and> m \<in> set (draws t') \<and> row m = 0}"
        then consider "m \<in> set ms"
          | t' where "t \<le> t'" "t' < T" "m \<in> set (draws t')" "row m = 0"
          by blast
        then show "m \<in> set ms' \<union> {m. \<exists>t'. Suc t \<le> t' \<and> t' < T \<and> m \<in> set (draws t') \<and> row m = 0}"
        proof cases
          case 1
          then show ?thesis using s' by simp
        next
          case 2
          show ?thesis
          proof (cases "t' = t")
            case True
            with 2 s' show ?thesis by simp
          next
            case False
            with 2 have "Suc t \<le> t'" by simp
            with 2 show ?thesis by blast
          qed
        qed
      qed
      moreover have "finite (set ms' \<union> {m. \<exists>t'. Suc t \<le> t' \<and> t' < T \<and> m \<in> set (draws t') \<and> row m = 0})"
      proof -
        have "{m. \<exists>t'. Suc t \<le> t' \<and> t' < T \<and> m \<in> set (draws t') \<and> row m = 0}
            \<subseteq> (\<Union>t' \<in> {..<T}. set (draws t'))"
          by auto
        then have "finite {m. \<exists>t'. Suc t \<le> t' \<and> t' < T \<and> m \<in> set (draws t') \<and> row m = 0}"
          by (rule finite_subset) simp
        then show ?thesis by simp
      qed
      ultimately have "card (set ms \<union> {m. \<exists>t'. t \<le> t' \<and> t' < T \<and> m \<in> set (draws t') \<and> row m = 0})
          \<le> card (set ms' \<union> {m. \<exists>t'. Suc t \<le> t' \<and> t' < T \<and> m \<in> set (draws t') \<and> row m = 0})"
        by (intro card_mono)
      with Suc.prems(5)
      have c': "n \<le> card (set ms' \<union> {m. \<exists>t'. Suc t \<le> t' \<and> t' < T \<and> m \<in> set (draws t') \<and> row m = 0})"
        by simp
      show ?thesis
        unfolding step using Suc.hyps(1)[OF k Suc.prems(1) d' l' z' c'] .
    qed
  qed
qed


lemma sample_users_result:
  "sample_users draws spm nm n us acc = Some y \<Longrightarrow>
     y = Inl ValueError
     \<or> (\<exists>rows. y = Inr (acc @ rows) \<and> length rows = length us
            \<and> (\<forall>k < length us. good_row (spm (us ! k)) n (rows ! k)))"
proof (induction us arbitrary: acc)
  case Nil
  then show ?case by simp
next
  case (Cons u us)
  from Cons.prems obtain z where z: "sample_user (draws u) 0 (spm u) nm n [] = Some z"
    by (cases "sample_user (draws u) 0 (spm u) nm n []") simp_all
  from sample_user_result[OF z] show ?case
  proof
    assume "z = Inl ValueError"
    with Cons.prems z show ?thesis by simp
  next
    assume "\<exists>res. z = Inr res \<and> good_row (spm u) n res"
    then obtain res where res: "z = Inr res" "good_row (spm u) n res" by blast
    with Cons.prems z have rec: "sample_users draws spm nm n us (acc @ [res]) = Some y"
      by simp
    from Cons.IH[OF rec] show ?thesis
    proof
      assume "y = Inl ValueError"
      then show ?thesis by simp
    next
      assume "\<exists>rows. y = Inr ((acc @ [res]) @ rows) \<and> length rows = length us
            \<and> (\<forall>k < length us. good_row (spm (us ! k)) n (rows ! k))"
      then obtain rows where rows: "y = Inr ((acc @ [res]) @ rows)" "length rows = length us"
        "\<forall>k < length us. good_row (spm (us ! k)) n (rows ! k)" by blast
      have "\<forall>k < length (u # us). good_row (spm ((u # us) ! k)) n ((res # rows) ! k)"
      proof (intro allI impI)
        fix k assume "k < length (u # us)"
        then show "good_row (spm ((u # us) ! k)) n ((res # rows) ! k)"
          using res(2) rows(3) by (cases k) simp_all
      qed
      with rows(1,2) have "y = Inr (acc @ (res # rows)) \<and> length (res # rows) = length (u # us)
          \<and> (\<forall>k < length (u # us). good_row (spm ((u # us) ! k)) n ((res # rows) ! k))"
        by simp
      then show ?thesis by blast
    qed
  qed
qed

lemma sample_users_returns:
  "\<forall>u \<in> set us. \<exists>res. sample_user (draws u) 0 (spm u) nm n [] = Some (Inr res)
     \<Longrightarrow> \<exists>mat. sample_users draws spm nm n us acc = Some (Inr mat)"
proof (induction us arbitrary: acc)
  case Nil
  show ?case by simp
next
  case (Cons u us)
  then obtain res where "sample_user (draws u) 0 (spm u) nm n [] = Some (Inr res)"
    by auto
  moreover have "\<exists>mat. sample_users draws spm nm n us (acc @ [res]) = Some (Inr mat)"
    using Cons.prems by (intro Cons.IH) simp
  ultimately show ?case by simp
qed

lemma list_all_zip_upt:
  "list_all pr (zip [0..<length ys] ys) = (\<forall>k < length ys. pr (k, ys ! k))"
  by (simp add: list_all_length)

lemma rows_pass_assertion:
  assumes "length mat = nu" "\<forall>u < nu. good_row (spm u) n (mat ! u)"
  shows "list_all (\<lambda>(user, movies). list_all (\<lambda>movie. spm user movie = 0) movies)
           (zip [0..<nu] mat)"
  using assms(2) unfolding assms(1)[symmetric] list_all_zip_upt
  by (simp add: good_row_def)

lemma gen_neg_set_cases:
  "gen_neg_set draws nu nm spm n = None
   \<or> gen_neg_set draws nu nm spm n = Some (Inl ValueError)
   \<or> (\<exists>mat. gen_neg_set draws nu nm spm n = Some (Inr mat)
          \<and> sample_users draws spm nm n [0..<nu] [] = Some (Inr mat)
          \<and> length mat = nu \<and> (\<forall>u < nu. good_row (spm u) n (mat ! u)))"
proof (cases "sample_users draws spm nm n [0..<nu] []")
  case None
  then show ?thesis by (simp add: gen_neg_set_def)
next
  case (Some y)
  from sample_users_result[OF Some] show ?thesis
  proof
    assume "y = Inl ValueError"
    with Some show ?thesis by (simp add: gen_neg_set_def)
  next
    assume "\<exists>rows. y = Inr ([] @ rows) \<and> length rows = length [0..<nu]
            \<and> (\<forall>k < length [0..<nu]. good_row (spm ([0..<nu] ! k)) n (rows ! k))"
    then obtain rows where rows: "y = Inr rows" "length rows = nu"
      "\<forall>u < nu. good_row (spm u) n (rows ! u)"
      by auto
    have "gen_neg_set draws nu nm spm n = Some (Inr rows)"
      using Some rows(1) rows_pass_assertion[OF rows(2,3)] by (simp add: gen_neg_set_def)
    with Some rows show ?thesis by blast
  qed
qed

lemma add_movies_subset: "set (add_movies row n d ms) \<subseteq> set ms \<union> set d"
proof (induction d arbitrary: ms)
  case Nil
  show ?case by simp
next
  case (Cons movie d)
  define ms' where "ms' = (if row movie = 0 then List.insert movie ms else ms)"
  have s: "set ms' \<subseteq> set ms \<union> {movie}" by (auto simp: ms'_def)
  show ?case
  proof (cases "length ms' = n")
    case True
    then have "add_movies row n (movie # d) ms = ms'" by (simp add: ms'_def Let_def)
    with s show ?thesis by auto
  next
    case False
    then have "add_movies row n (movie # d) ms = add_movies row n d ms'"
      by (simp add: ms'_def Let_def)
    with Cons.IH[of ms'] s show ?thesis by auto
  qed
qed

lemma sample_user_range_aux:
  assumes ret: "sample_user draws t row nm n ms = Some y"
  shows "(\<forall>t. \<forall>m \<in> set (draws t). m < nm) \<and> (\<forall>m \<in> set ms. m < nm)
       \<longrightarrow> (\<forall>res. y = Inr res \<longrightarrow> (\<forall>m \<in> set res. m < nm))"
proof (rule sample_user.raw_induct[where P = "\<lambda>draws t row nm n ms y.
    (\<forall>t. \<forall>m \<in> set (draws t). m < nm) \<and> (\<forall>m \<in> set ms. m < nm)
       \<longrightarrow> (\<forall>res. y = Inr res \<longrightarrow> (\<forall>m \<in> set res. m < nm))", OF _ ret])
  fix f :: "(nat \<Rightarrow> nat list) \<Rightarrow> nat \<Rightarrow> (nat \<Rightarrow> real) \<Rightarrow> nat \<Rightarrow> nat \<Rightarrow> nat list
      \<Rightarrow> (py_error + nat list) option"
    and draws t row nm n ms y
  assume IH: "\<And>d t r nm n ms y. f d t r nm n ms = Some y \<Longrightarrow>
      (\<forall>t. \<forall>m \<in> set (d t). m < nm) \<and> (\<forall>m \<in> set ms. m < nm)
       \<longrightarrow> (\<forall>res. y = Inr res \<longrightarrow> (\<forall>m \<in> set res. m < nm))"
    and eq: "(if length ms < n
        then if nm < n then Some (Inl ValueError)
             else f draws (Suc t) row nm n (add_movies row n (draws t) ms)
        else Some (Inr ms)) = Some y"
  show "(\<forall>t. \<forall>m \<in> set (draws t). m < nm) \<and> (\<forall>m \<in> set ms. m < nm)
       \<longrightarrow> (\<forall>res. y = Inr res \<longrightarrow> (\<forall>m \<in> set res. m < nm))"
  proof (intro impI allI)
    fix res
    assume inv: "(\<forall>t. \<forall>m \<in> set (draws t). m < nm) \<and> (\<forall>m \<in> set ms. m < nm)"
      and y: "y = Inr res"
    show "\<forall>m \<in> set res. m < nm"
    proof (cases "length ms < n")
      case False
      with eq y have "res = ms" by simp
      with inv show ?thesis by simp
    next
      case True
      with eq y have rec: "f draws (Suc t) row nm n (add_movies row n (draws t) ms) = Some y"
        by (auto split: if_splits)
      have "\<forall>m \<in> set (add_movies row n (draws t) ms). m < nm"
        using add_movies_subset[of row n "draws t" ms] inv by auto
      with IH[OF rec] inv y show ?thesis by blast
    qed
  qed
qed

lemma sample_user_range:
  assumes "sample_user draws t row nm n [] = Some (Inr res)"
    and "\<forall>t. \<forall>m \<in> set (draws t). m < nm"
  shows "\<forall>m \<in> set res. m < nm"
  using sample_user_range_aux[OF assms(1)] assms(2) by simp

lemma sample_users_range:
  assumes "sample_users draws spm nm n us acc = Some (Inr mat)"
    and "\<forall>u \<in> set us. \<forall>t. \<forall>m \<in> set (draws u t). m < nm"
    and "\<forall>row \<in> set acc. \<forall>m \<in> set row. m < nm"
  shows "\<forall>row \<in> set mat. \<forall>m \<in> set row. m < nm"
  using assms
proof (induction us arbitrary: acc)
  case Nil
  then show ?case by simp
next
  case (Cons u us)
  from Cons.prems(1) obtain res where res: "sample_user (draws u) 0 (spm u) nm n [] = Some (Inr res)"
    and rec: "sample_users draws spm nm n us (acc @ [res]) = Some (Inr mat)"
    by (auto split: option.splits sum.splits)
  have "\<forall>m \<in> set res. m < nm"
    using sample_user_range[OF res] Cons.prems(2) by simp
  with Cons.prems(3) have "\<forall>row \<in> set (acc @ [res]). \<forall>m \<in> set row. m < nm" by auto
  with Cons.IH[OF rec] Cons.prems(2) show ?case by simp
qed

text \<open>Every finite set of movie ids has been offered in full after finitely many draws.\<close>

lemma random_choices_offer:
  assumes "random_choices nm k dr" "finite S" "\<forall>m \<in> S. m < nm"
  shows "\<exists>T. \<forall>m \<in> S. \<exists>t < T. m \<in> set (dr t)"
  using assms(2,3)
proof (induction S rule: finite_induct)
  case empty
  show ?case by simp
next
  case (insert x S)
  then obtain T where T: "\<forall>m \<in> S. \<exists>t < T. m \<in> set (dr t)" by auto
  from assms(1) insert.prems obtain t where t: "x \<in> set (dr t)"
    unfolding random_choices_def by (metis insertI1 le_refl)
  have "\<forall>m \<in> insert x S. \<exists>t' < max T (Suc t). m \<in> set (dr t')"
  proof
    fix m assume "m \<in> insert x S"
    then consider "m = x" | "m \<in> S" by auto
    then show "\<exists>t' < max T (Suc t). m \<in> set (dr t')"
    proof cases
      case 1
      with t show ?thesis by (intro exI[of _ t]) simp
    next
      case 2
      with T obtain t' where "t' < T" "m \<in> set (dr t')" by auto
      then show ?thesis by (intro exI[of _ t']) simp
    qed
  qed
  then show ?case by (rule exI)
qed

text \<open>
  What \<open>gen_neg_set\<close> itself guarantees: for a matrix in which every user has at least
  \<open>n\<close> movies without an interaction it returns, its own assertions pass, and the matrix
  it returns has one row per user with \<open>n\<close> different movie ids of the matrix, none of
  them interacted with by that user.
\<close>

lemma gen_neg_set_returns:
  assumes enough: "\<forall>u < nu. n \<le> card {m. m < nm \<and> spm u m = 0}"
    and src: "\<forall>u < nu. random_choices nm n (draws u)"
  shows "\<exists>neg_mat. gen_neg_set draws nu nm spm n = Some (Inr neg_mat) \<and> length neg_mat = nu
           \<and> (\<forall>u < nu. good_row (spm u) n (neg_mat ! u) \<and> (\<forall>m \<in> set (neg_mat ! u). m < nm))"
proof -
  have one: "\<exists>res. sample_user (draws u) 0 (spm u) nm n [] = Some (Inr res)" if u: "u < nu" for u
  proof -
    define S where "S = {m. m < nm \<and> spm u m = 0}"
    have fS: "finite S" by (simp add: S_def)
    have "card S \<le> card {..<nm}" by (intro card_mono) (auto simp: S_def)
    with enough u have nm: "n \<le> nm" by (fastforce simp: S_def)
    from src u have rc: "random_choices nm n (draws u)" by simp
    from random_choices_offer[OF rc fS] obtain T where T: "\<forall>m \<in> S. \<exists>t < T. m \<in> set (draws u t)"
      by (auto simp: S_def)
    define D where "D = {m. \<exists>t'. 0 \<le> t' \<and> t' < T \<and> m \<in> set (draws u t') \<and> spm u m = 0}"
    have "D \<subseteq> (\<Union>t \<in> {..<T}. set (draws u t))" by (auto simp: D_def)
    then have fD: "finite D" by (rule finite_subset) simp
    have "S \<subseteq> D" using T by (auto simp: S_def D_def)
    then have "card S \<le> card D" using fD by (rule card_mono[rotated])
    with enough u have "n \<le> card D" by (fastforce simp: S_def)
    then have c: "n \<le> card (set [] \<union> {m. \<exists>t'. 0 \<le> t' \<and> t' < T \<and> m \<in> set (draws u t')
        \<and> spm u m = 0})"
      by (simp add: D_def)
    show ?thesis
      by (rule sample_user_returns[OF nm _ _ _ c]) simp_all
  qed
  then have "\<forall>u \<in> set [0..<nu]. \<exists>res. sample_user (draws u) 0 (spm u) nm n [] = Some (Inr res)"
    by simp
  from sample_users_returns[OF this, of "[]"]
  obtain mat where mat: "sample_users draws spm nm n [0..<nu] [] = Some (Inr mat)" by blast
  from sample_users_result[OF mat]
  have l: "length mat = nu" and g: "\<forall>u < nu. good_row (spm u) n (mat ! u)"
    by auto
  from rows_pass_assertion[OF l g] mat
  have ret: "gen_neg_set draws nu nm spm n = Some (Inr mat)"
    by (simp add: gen_neg_set_def)
  have "\<forall>u \<in> set [0..<nu]. \<forall>t. \<forall>m \<in> set (draws u t). m < nm"
    using src by (simp add: random_choices_def)
  from sample_users_range[OF mat this] have "\<forall>row \<in> set mat. \<forall>m \<in> set row. m < nm"
    by simp
  then have r: "\<forall>u < nu. \<forall>m \<in> set (mat ! u). m < nm"
    using l by auto
  from ret l g r show ?thesis by blast
qed

text \<open>
  A user with exactly \<open>n\<close> movies without an interaction gets all of them, whatever
  is drawn.
\<close>

lemma good_row_all:
  assumes "good_row row n res" "\<forall>m \<in> set res. m < nm" "card {m. m < nm \<and> row m = 0} = n"
  shows "set res = {m. m < nm \<and> row m = 0}"
proof (rule card_subset_eq)
  show "finite {m. m < nm \<and> row m = 0}" by simp
  show "set res \<subseteq> {m. m < nm \<and> row m = 0}"
    using assms(1,2) by (auto simp: good_row_def list_all_iff)
  have "card (set res) = length res"
    using assms(1) by (simp add: good_row_def distinct_card)
  then show "card (set res) = card {m. m < nm \<and> row m = 0}"
    using assms(1,3) by (simp add: good_row_def)
qed

lemma save_negatives_fails:
  assumes "u < length neg" "m \<in> set (neg ! u)"
    and "(u, m) \<in> set train_map \<union> set valid_map \<union> set test_map"
  shows "save_negatives neg train_map valid_map test_map = Inl AssertionError"
proof -
  define pairs where "pairs = concat (map (\<lambda>(row, cols). map (\<lambda>col. (row, col)) cols)
                            (zip [0..<length neg] neg))"
  have "(u, neg ! u) \<in> set (zip [0..<length neg] neg)"
    using assms(1) by (auto simp: in_set_zip intro!: exI[of _ u])
  then have mem: "(u, m) \<in> set pairs"
    unfolding pairs_def using assms(2) by force
  have "\<not> list_all (\<lambda>p. p \<notin> set train_map \<and> p \<notin> set valid_map \<and> p \<notin> set test_map) pairs"
    unfolding list_all_iff using mem assms(3) by blast
  then show ?thesis
    by (simp add: save_negatives_def Let_def pairs_def[symmetric])
qed

text \<open>
  Two users and 102 movies, user 0 with the movies 6, 7, 9 and user 1 with the movies
  5, 8, 101. Whatever \<^verbatim>\<open>np.random.choice\<close> draws, \<^verbatim>\<open>gen_neg_set(..., 99)\<close> returns for user 0
  the 99 other movies, movie 5 among them; a map that holds the pair \<open>(0, 5)\<close> makes the
  assertions of the saving cell fail.
\<close>

lemma neg_set_holds_every_other_movie:
  fixes draws :: "nat \<Rightarrow> nat \<Rightarrow> nat list"
  defines "spm \<equiv> coo_entry [1, 0, 0, 1, 0, 1] [5, 6, 7, 8, 9, 101]"
  assumes src: "\<forall>u < 2. random_choices 102 99 (draws u)"
    and key: "(0, 5) \<in> set train_map \<union> set valid_map \<union> set test_map"
  shows "\<exists>neg. gen_neg_set draws 2 102 spm 99 = Some (Inr neg) \<and> 5 \<in> set (neg ! 0)
           \<and> save_negatives neg train_map valid_map test_map = Inl AssertionError"
proof -
  have z0: "(spm 0 m = 0) = (m \<noteq> 6 \<and> m \<noteq> 7 \<and> m \<noteq> 9)" for m
    by (auto simp: spm_def coo_entry_def)
  have z1: "(spm (Suc 0) m = 0) = (m \<noteq> 5 \<and> m \<noteq> 8 \<and> m \<noteq> 101)" for m
    by (auto simp: spm_def coo_entry_def)
  have s0: "{m. m < 102 \<and> spm 0 m = 0} = {..<102} - {6, 7, 9}"
    by (auto simp: z0)
  have s1: "{m. m < 102 \<and> spm (Suc 0) m = 0} = {..<102} - {5, 8, 101}"
    by (auto simp: z1)
  have c0: "card {m. m < 102 \<and> spm 0 m = 0} = 99"
    unfolding s0 by (subst card_Diff_subset) simp_all
  have c1: "card {m. m < 102 \<and> spm (Suc 0) m = 0} = 99"
    unfolding s1 by (subst card_Diff_subset) simp_all
  have enough: "\<forall>u < 2. 99 \<le> card {m. m < 102 \<and> spm u m = 0}"
    using c0 c1 by (simp add: less_Suc_eq numeral_2_eq_2)
  from gen_neg_set_returns[OF enough src]
  obtain neg where ret: "gen_neg_set draws 2 102 spm 99 = Some (Inr neg)"
    and l: "length neg = 2"
    and all: "\<forall>u < 2. good_row (spm u) 99 (neg ! u) \<and> (\<forall>m \<in> set (neg ! u). m < 102)"
    by (elim exE conjE)
  have "(0::nat) < 2" by simp
  with all have g: "good_row (spm 0) 99 (neg ! 0)" and r: "\<forall>m \<in> set (neg ! 0). m < 102"
    by blast+
  have "set (neg ! 0) = {m. m < 102 \<and> spm 0 m = 0}"
    using g r c0 by (rule good_row_all)
  then have five: "5 \<in> set (neg ! 0)" by (simp add: z0)
  have fails: "save_negatives neg train_map valid_map test_map = Inl AssertionError"
    by (rule save_negatives_fails[of 0 _ 5]) (use l five key in simp_all)
  from ret five fails show ?thesis by blast
qed

text \<open>
  Claim C8. The claim holds of \<open>gen_neg_set\<close> itself (\<open>gen_neg_set_returns\<close>), but not
  of the assertions of the cell that saves the negative sets, because \<open>pick_test\<close> can
  put into the validation map a pair the user never interacted with. Two users and 102
  movies, the interactions stored in the order \<open>(1,5)\<close>, \<open>(0,6)\<close>, \<open>(0,7)\<close>, \<open>(1,8)\<close>, \<open>(0,9)\<close>,
  \<open>(1,101)\<close>; \<open>pick_test\<close> draws the positions 0 and 1 for user 0 and the positions 3 and 4
  for user 1, which makes movie 5 the validation item of user 0. User 0 has exactly 99
  movies without an interaction, movie 5 among them, so \<^verbatim>\<open>gen_neg_set(..., 99)\<close> returns
  all of them for user 0, and \<^verbatim>\<open>assert (row, col) not in valid_map\<close> fails. The draws
  of \<open>gen_neg_set\<close> are here the movies 0 to 98 and the movies 3 to 101 in turn.
\<close>

theorem neg_valid_assertion_fails:
  "split_maps [1, 0, 0, 1, 0, 1] [5, 6, 7, 8, 9, 101] [(0, 1), (3, 4)]
     = Some ([(0, 7), (1, 101)], [(0, 5), (1, 8)], [(0, 6), (1, 9)])
   \<and> coo_entry [1, 0, 0, 1, 0, 1] [5, 6, 7, 8, 9, 101] 0 5 = 0
   \<and> coo_shape0 [1, 0, 0, 1, 0, 1] = 2 \<and> coo_shape0 [5, 6, 7, 8, 9, 101] = 102
   \<and> (case gen_neg_set (\<lambda>u t. if even t then [0..<99] else [3..<102]) 2 102
             (coo_entry [1, 0, 0, 1, 0, 1] [5, 6, 7, 8, 9, 101]) 99 of
         Some (Inr neg_valid) \<Rightarrow>
           5 \<in> set (neg_valid ! 0)
           \<and> save_negatives neg_valid [(0, 7), (1, 101)] [(0, 5), (1, 8)] [(0, 6), (1, 9)]
               = Inl AssertionError
       | _ \<Rightarrow> False)"
proof -
  define draws :: "nat \<Rightarrow> nat \<Rightarrow> nat list" where
    "draws = (\<lambda>u t. if even t then [0..<99] else [3..<102])"
  have a: "split_maps [1, 0, 0, 1, 0, 1] [5, 6, 7, 8, 9, 101] [(0, 1), (3, 4)]
     = Some ([(0, 7), (1, 101)], [(0, 5), (1, 8)], [(0, 6), (1, 9)])"
    by code_simp
  have b: "coo_entry [1, 0, 0, 1, 0, 1] [5, 6, 7, 8, 9, 101] 0 5 = 0"
    by (simp add: coo_entry_def)
  have c: "coo_shape0 [1, 0, 0, 1, 0, 1] = 2 \<and> coo_shape0 [5, 6, 7, 8, 9, 101] = 102"
    by (simp add: coo_shape0_def)
  have rc: "random_choices 102 99 (draws u)" for u
    unfolding random_choices_def
  proof (intro conjI allI impI)
    fix t
    show "length (draws u t) = 99" by (simp add: draws_def)
    show "distinct (draws u t)" by (simp add: draws_def)
    show "\<forall>m \<in> set (draws u t). m < 102" by (simp add: draws_def)
  next
    fix t m :: nat assume m: "m < 102"
    show "\<exists>t' \<ge> t. m \<in> set (draws u t')"
    proof (cases "m < 99")
      case True
      then have "m \<in> set (draws u (2 * t))" by (simp add: draws_def)
      then show ?thesis by (intro exI[of _ "2 * t"]) simp
    next
      case False
      then have "3 \<le> m" by simp
      with m have "m \<in> {3..<102}" by (simp only: atLeastLessThan_iff)
      then have "m \<in> set [3..<102]" by (simp only: set_upt)
      moreover have "draws u (Suc (2 * t)) = [3..<102]" by (simp add: draws_def)
      ultimately have "m \<in> set (draws u (Suc (2 * t)))" by (simp only:)
      then show ?thesis by (intro exI[of _ "Suc (2 * t)"]) simp
    qed
  qed
  then have src: "\<forall>u < 2. random_choices 102 99 (draws u)" by simp
  have key: "(0, 5) \<in> set [(0, 7), (1, 101)] \<union> set [(0, 5), (1, 8)] \<union> set [(0::nat, 6::nat), (1, 9)]"
    by simp
  from neg_set_holds_every_other_movie[OF src key]
  obtain neg where ret: "gen_neg_set draws 2 102
        (coo_entry [1, 0, 0, 1, 0, 1] [5, 6, 7, 8, 9, 101]) 99 = Some (Inr neg)"
    and five: "5 \<in> set (neg ! 0)"
    and fails: "save_negatives neg [(0, 7), (1, 101)] [(0, 5), (1, 8)] [(0, 6), (1, 9)]
      = Inl AssertionError"
    by (elim exE conjE)
  have d: "(case gen_neg_set draws 2 102 (coo_entry [1, 0, 0, 1, 0, 1] [5, 6, 7, 8, 9, 101]) 99 of
         Some (Inr neg_valid) \<Rightarrow>
           5 \<in> set (neg_valid ! 0)
           \<and> save_negatives neg_valid [(0, 7), (1, 101)] [(0, 5), (1, 8)] [(0, 6), (1, 9)]
               = Inl AssertionError
       | _ \<Rightarrow> False)"
    unfolding ret option.case sum.case using five fails by (rule conjI)
  from a b c d show ?thesis
    unfolding draws_def by (intro conjI) simp_all
qed

end
